theory Spec2Isabelle
  imports Main "HOL-Library.Sublist"
begin

section \<open>Strings and the regular expressions of the terminal handler\<close>

text \<open>
  A JavaScript string is a sequence of UTF-16 code units. A code unit is modelled by its
  number, so that the guillemets of the speech markers (U+00AB, U+00BB) and the Unicode
  white space that \<^verbatim>\<open>\s\<close> and \<^verbatim>\<open>trim()\<close> know are plain values. None of the
  regular expressions of the source has the \<^verbatim>\<open>u\<close> flag: they all work on code units.
\<close>

type_synonym jsstring = "nat list"

definition ascii :: "string \<Rightarrow> jsstring" where
  "ascii s = map of_char s"

definition ESC :: nat where "ESC = 27"
definition BEL :: nat where "BEL = 7"
definition LAQUO :: nat where "LAQUO = 171"
definition RAQUO :: nat where "RAQUO = 187"

text \<open>The character classes \<^verbatim>\<open>[0-9;]\<close>, \<^verbatim>\<open>[a-zA-Z]\<close>, \<^verbatim>\<open>[\x00-\x1f\x7f]\<close>,
  \<^verbatim>\<open>[\r\n]\<close> and \<^verbatim>\<open>\s\<close> (ECMAScript WhiteSpace and LineTerminator, which is also
  what \<^verbatim>\<open>trim()\<close> removes).\<close>

definition is_param :: "nat \<Rightarrow> bool" where
  "is_param c = ((48 \<le> c \<and> c \<le> 57) \<or> c = 59)"

definition is_alpha :: "nat \<Rightarrow> bool" where
  "is_alpha c = ((97 \<le> c \<and> c \<le> 122) \<or> (65 \<le> c \<and> c \<le> 90))"

definition is_ctrl :: "nat \<Rightarrow> bool" where
  "is_ctrl c = (c \<le> 31 \<or> c = 127)"

definition is_crlf :: "nat \<Rightarrow> bool" where
  "is_crlf c = (c = 13 \<or> c = 10)"

definition is_space :: "nat \<Rightarrow> bool" where
  "is_space c = ((9 \<le> c \<and> c \<le> 13) \<or> c = 32 \<or> c = 160 \<or> c = 5760
     \<or> (8192 \<le> c \<and> c \<le> 8202) \<or> c = 8232 \<or> c = 8233 \<or> c = 8239 \<or> c = 8287
     \<or> c = 12288 \<or> c = 65279)"

text \<open>\<^verbatim>\<open>String.prototype.trim\<close>.\<close>

definition trim :: "jsstring \<Rightarrow> jsstring" where
  "trim s = rev (dropWhile is_space (rev (dropWhile is_space s)))"

text \<open>
  \<^verbatim>\<open>s.replace(re, r)\<close> for a global regular expression: the string is scanned from the
  left; where the expression matches, the match is replaced and the scan goes on behind
  it, elsewhere the code unit is kept. The expression is given by its matcher, which
  returns the length of the match that starts at the head of its argument. Every
  expression of the source matches at least one code unit.
\<close>

fun replace_all :: "(jsstring \<Rightarrow> nat option) \<Rightarrow> jsstring \<Rightarrow> jsstring \<Rightarrow> jsstring" where
  "replace_all m r [] = []"
| "replace_all m r (c # cs) =
     (case m (c # cs) of
        None \<Rightarrow> c # replace_all m r cs
      | Some n \<Rightarrow> r @ replace_all m r (drop (n - 1) cs))"

text \<open>\<^verbatim>\<open>/\x1b\[[0-9;]*[a-zA-Z]/\<close>: the star is greedy and its class is disjoint from the
  letters, so the match exists exactly when a letter ends the longest parameter run.\<close>

definition csi_match :: "jsstring \<Rightarrow> nat option" where
  "csi_match s =
     (if prefix [ESC, 91] s then
        (let k = length (takeWhile is_param (drop 2 s)) in
         case drop (2 + k) s of
           [] \<Rightarrow> None
         | l # _ \<Rightarrow> if is_alpha l then Some (k + 3) else None)
      else None)"

text \<open>\<^verbatim>\<open>/\x1b\][^\x07]*\x07/\<close>: up to the first BEL behind the introducer.\<close>

definition osc_match :: "jsstring \<Rightarrow> nat option" where
  "osc_match s =
     (if prefix [ESC, 93] s then
        (let k = length (takeWhile (\<lambda>c. c \<noteq> BEL) (drop 2 s)) in
         case drop (2 + k) s of
           [] \<Rightarrow> None
         | _ # _ \<Rightarrow> Some (k + 3))
      else None)"

text \<open>\<^verbatim>\<open>/\x1b\[\?[0-9;]*[a-zA-Z]/\<close>.\<close>

definition private_match :: "jsstring \<Rightarrow> nat option" where
  "private_match s =
     (if prefix [ESC, 91, 63] s then
        (let k = length (takeWhile is_param (drop 3 s)) in
         case drop (3 + k) s of
           [] \<Rightarrow> None
         | l # _ \<Rightarrow> if is_alpha l then Some (k + 4) else None)
      else None)"

text \<open>\<^verbatim>\<open>/\x1b[PX^_][^\x1b]*\x1b\\/\<close>: the greedy class stops at the next ESC, which a
  backslash has to follow.\<close>

definition string_seq_match :: "jsstring \<Rightarrow> nat option" where
  "string_seq_match s =
     (case s of
        e # i # t \<Rightarrow>
          if e = ESC \<and> i \<in> {80, 88, 94, 95} then
            (let k = length (takeWhile (\<lambda>c. c \<noteq> ESC) t) in
             if prefix [ESC, 92] (drop k t) then Some (k + 4) else None)
          else None
      | _ \<Rightarrow> None)"

text \<open>\<^verbatim>\<open>stripAnsi\<close>: the five replacements in the order of the source; the last one
  deletes single control characters.\<close>

definition stripAnsi :: "jsstring \<Rightarrow> jsstring" where
  "stripAnsi text =
     filter (\<lambda>c. \<not> is_ctrl c)
       (replace_all string_seq_match []
         (replace_all private_match []
           (replace_all osc_match []
             (replace_all csi_match [] text))))"

text \<open>\<^verbatim>\<open>String.prototype.indexOf\<close> and \<^verbatim>\<open>String.prototype.includes\<close>.\<close>

fun indexOf :: "jsstring \<Rightarrow> jsstring \<Rightarrow> nat option" where
  "indexOf pat [] = (if pat = [] then Some 0 else None)"
| "indexOf pat (c # cs) =
     (if prefix pat (c # cs) then Some 0 else map_option Suc (indexOf pat cs))"

definition js_includes :: "jsstring \<Rightarrow> jsstring \<Rightarrow> bool" where
  "js_includes pat s = (indexOf pat s \<noteq> None)"

text \<open>The speech markers and the expression \<^verbatim>\<open>/\<guillemotleft>tts\<guillemotright>([\s\S]*?)\<guillemotleft>\/tts\<guillemotright>/g\<close>.\<close>

definition OPEN_TAG :: jsstring where
  "OPEN_TAG = [LAQUO, 116, 116, 115, RAQUO]"

definition CLOSE_TAG :: jsstring where
  "CLOSE_TAG = [LAQUO, 47, 116, 116, 115, RAQUO]"

definition OPEN_MARK :: jsstring where
  "OPEN_MARK = [LAQUO, 116, 116, 115]"

text \<open>
  One \<^verbatim>\<open>tagRegex.exec\<close> on the text behind \<^verbatim>\<open>lastIndex\<close>: the match starts at the
  first opening marker; the lazy group ends at the first closing marker behind it. With
  no closing marker behind the first opening one there is none behind a later one
  either, and the expression fails. The result is the captured group and the text behind
  the match.
\<close>

definition tag_exec :: "jsstring \<Rightarrow> (jsstring \<times> jsstring) option" where
  "tag_exec s =
     (case indexOf OPEN_TAG s of
        None \<Rightarrow> None
      | Some i \<Rightarrow>
          (let body = drop (i + length OPEN_TAG) s in
           case indexOf CLOSE_TAG body of
             None \<Rightarrow> None
           | Some j \<Rightarrow> Some (take j body, drop (j + length CLOSE_TAG) body)))"

lemma indexOf_bound: "indexOf pat s = Some i \<Longrightarrow> i + length pat \<le> length s"
proof (induction s arbitrary: i)
  case Nil
  then show ?case by (simp split: if_splits)
next
  case (Cons c cs)
  then show ?case
    by (auto split: if_splits dest: prefix_length_le)
qed

lemma tag_exec_shorter: "tag_exec s = Some (g, r) \<Longrightarrow> length r < length s"
  by (auto simp: tag_exec_def Let_def OPEN_TAG_def CLOSE_TAG_def
      split: option.splits dest!: indexOf_bound)

text \<open>The loop \<^verbatim>\<open>while ((match = tagRegex.exec(buffer)) !== null)\<close>: all captured
  groups, in order, and \<^verbatim>\<open>buffer.substring(lastIndex)\<close>, which is the whole buffer when
  nothing matched (\<^verbatim>\<open>lastIndex\<close> is still 0).\<close>

function extract_tags :: "jsstring \<Rightarrow> jsstring list \<times> jsstring" where
  "extract_tags s =
     (case tag_exec s of
        None \<Rightarrow> ([], s)
      | Some (g, r) \<Rightarrow> (case extract_tags r of (gs, rest) \<Rightarrow> (g # gs, rest)))"
  by pat_completeness auto
termination
  by (relation "measure length") (auto dest: tag_exec_shorter)

declare extract_tags.simps [simp del]

section \<open>The terminal session: classifier, spoken set, carry-over buffer\<close>

text \<open>The character class \<^verbatim>\<open>[{}()\[\];=`$]\<close>.\<close>

definition is_code_punct :: "nat \<Rightarrow> bool" where
  "is_code_punct c = (c \<in> {123, 125, 40, 41, 91, 93, 59, 61, 96, 36})"

text \<open>\<^verbatim>\<open>RegExp.test\<close> for an expression without anchor: the expression, given as a
  predicate on the text behind the start position, matches at some start position.\<close>

fun test_anywhere :: "(jsstring \<Rightarrow> bool) \<Rightarrow> jsstring \<Rightarrow> bool" where
  "test_anywhere m [] = m []"
| "test_anywhere m (c # cs) = (m (c # cs) \<or> test_anywhere m cs)"

text \<open>A keyword followed by \<^verbatim>\<open>\s\<close>, as in \<^verbatim>\<open>function\s\<close>.\<close>

definition word_then_space :: "jsstring \<Rightarrow> jsstring \<Rightarrow> bool" where
  "word_then_space w s =
     (prefix w s \<and> (case drop (length w) s of [] \<Rightarrow> False | c # _ \<Rightarrow> is_space c))"

text \<open>\<^verbatim>\<open>/[{}()\[\];=`$]|^\s*\/\/|^\s*#|function\s|const\s|let\s|var\s/.test(content)\<close>\<close>

definition looksLikeCode :: "jsstring \<Rightarrow> bool" where
  "looksLikeCode content =
     (list_ex is_code_punct content
      \<or> prefix (ascii ''//'') (dropWhile is_space content)
      \<or> prefix (ascii ''#'') (dropWhile is_space content)
      \<or> test_anywhere (word_then_space (ascii ''function'')) content
      \<or> test_anywhere (word_then_space (ascii ''const'')) content
      \<or> test_anywhere (word_then_space (ascii ''let'')) content
      \<or> test_anywhere (word_then_space (ascii ''var'')) content)"

text \<open>\<^verbatim>\<open>content.length > 5 && /^[a-zA-Z]/.test(content) && !looksLikeCode\<close>\<close>

definition looksLikeProse :: "jsstring \<Rightarrow> bool" where
  "looksLikeProse content =
     (length content > 5
      \<and> (case content of [] \<Rightarrow> False | c # _ \<Rightarrow> is_alpha c)
      \<and> \<not> looksLikeCode content)"

text \<open>
  The refs of one \<^verbatim>\<open>Terminal\<close> component. A JavaScript \<^verbatim>\<open>Set\<close> iterates in
  insertion order and \<^verbatim>\<open>add\<close> leaves an element that is already there where it is, so
  the set of spoken contents is a list without repetitions, the newest entry last.
\<close>

record terminal =
  ttsBufferRef :: jsstring
  spokenContentRef :: "jsstring list"
  silentModeRef :: bool
  voiceOutputEnabledRef :: bool
  isActiveRef :: bool

definition set_add :: "jsstring \<Rightarrow> jsstring list \<Rightarrow> jsstring list" where
  "set_add x xs = (if x \<in> set xs then xs else xs @ [x])"

text \<open>
  The body of the loop over the matches in \<^verbatim>\<open>onPtyData\<close>, for the captured group of
  one match. The second component collects the arguments of the calls of
  \<^verbatim>\<open>speakText\<close>, in the order of the calls. The three gates in front of the call are
  \<^verbatim>\<open>voiceOutputEnabledRef.current && isActiveRef.current && !silentModeRef.current\<close>.
\<close>

definition gates_open :: "terminal \<Rightarrow> bool" where
  "gates_open t = (voiceOutputEnabledRef t \<and> isActiveRef t \<and> \<not> silentModeRef t)"

definition process_match :: "terminal \<times> jsstring list \<Rightarrow> jsstring \<Rightarrow> terminal \<times> jsstring list" where
  "process_match acc g =
     (case acc of (t, calls) \<Rightarrow>
        (let content = trim g in
         if looksLikeProse content \<and> content \<notin> set (spokenContentRef t) then
           (let t' = t\<lparr>spokenContentRef := set_add content (spokenContentRef t)\<rparr> in
            if gates_open t then (t', calls @ [content]) else (t', calls))
         else (t, calls)))"

text \<open>The loop over all complete marker pairs of the accumulated buffer.\<close>

definition tag_loop :: "terminal \<Rightarrow> jsstring \<Rightarrow> terminal \<times> jsstring list" where
  "tag_loop t buffer = foldl process_match (t, []) (fst (extract_tags buffer))"

text \<open>What stays in the buffer: the text behind the last complete pair; nothing when that
  text has no \<^verbatim>\<open>\<guillemotleft>tts\<close>; its last 2000 code units when it is longer than that.\<close>

definition carry_over :: "jsstring \<Rightarrow> jsstring" where
  "carry_over buffer =
     (let b1 = snd (extract_tags buffer);
          b2 = (if js_includes OPEN_MARK b1 then b1 else []);
          b3 = (if length b2 > 2000 then drop (length b2 - 2000) b2 else b2)
      in b3)"

text \<open>\<^verbatim>\<open>if (size > 1000) spokenContentRef.current = new Set(entries.slice(-500))\<close>\<close>

definition limit_spoken :: "jsstring list \<Rightarrow> jsstring list" where
  "limit_spoken entries =
     (if length entries > 1000 then drop (length entries - 500) entries else entries)"

text \<open>The speech part of the handler of \<^verbatim>\<open>onPtyData\<close>: the new refs and the calls of
  \<^verbatim>\<open>speakText\<close> it makes. The loop reads the buffer and never writes it, so the buffer is
  updated after the loop as in the source.\<close>

definition onPtyData :: "terminal \<Rightarrow> jsstring \<Rightarrow> terminal \<times> jsstring list" where
  "onPtyData t payload =
     (let cleanChunk = stripAnsi payload;
          buffer = ttsBufferRef t @ cleanChunk;
          (t1, calls) = tag_loop t buffer
      in (t1\<lparr>ttsBufferRef := carry_over buffer,
               spokenContentRef := limit_spoken (spokenContentRef t1)\<rparr>, calls))"

text \<open>The segments the handler extracts from a chunk: the trimmed captured groups.\<close>

definition segments :: "terminal \<Rightarrow> jsstring \<Rightarrow> jsstring list" where
  "segments t payload = map trim (fst (extract_tags (ttsBufferRef t @ stripAnsi payload)))"

text \<open>A stream of chunks: the handler runs once for each, the calls are collected.\<close>

fun feed :: "terminal \<Rightarrow> jsstring list \<Rightarrow> terminal \<times> jsstring list" where
  "feed t [] = (t, [])"
| "feed t (payload # rest) =
     (case onPtyData t payload of
        (t1, calls) \<Rightarrow> (case feed t1 rest of (t2, calls') \<Rightarrow> (t2, calls @ calls')))"

text \<open>
  Mounting the component: the speech refs are reset, and every chunk of the replay buffer
  is scanned on its own for complete marker pairs, whose trimmed contents longer than 3
  are added to the spoken set.
\<close>

definition replay_chunk :: "jsstring list \<Rightarrow> jsstring \<Rightarrow> jsstring list" where
  "replay_chunk spoken chunk =
     foldl (\<lambda>sp g. let content = trim g in if length content > 3 then set_add content sp else sp)
       spoken (fst (extract_tags (stripAnsi chunk)))"

definition mount :: "terminal \<Rightarrow> jsstring list \<Rightarrow> terminal" where
  "mount t replay =
     t\<lparr>silentModeRef := True, spokenContentRef := foldl replay_chunk [] replay, ttsBufferRef := []\<rparr>"

text \<open>
  The entries that one run of the loop over the captured groups adds to a spoken set.
\<close>

fun new_entries :: "jsstring list \<Rightarrow> jsstring list \<Rightarrow> jsstring list" where
  "new_entries spoken [] = []"
| "new_entries spoken (g # gs) =
     (if looksLikeProse (trim g) \<and> trim g \<notin> set spoken
      then trim g # new_entries (spoken @ [trim g]) gs
      else new_entries spoken gs)"



text \<open>
  The cut of the buffer to its last 2000 code units drops no opening marker of the
  remainder: the first \<^verbatim>\<open>\<guillemotleft>tts\<guillemotright>\<close> of the remainder, if there is one, begins in the part
  that is kept. A remainder of at most 2000 code units is kept whole.
\<close>

definition keeps_opening :: "jsstring \<Rightarrow> bool" where
  "keeps_opening r =
     (case indexOf OPEN_TAG r of None \<Rightarrow> True | Some i \<Rightarrow> length r - 2000 \<le> i)"



text \<open>The refs as \<^verbatim>\<open>useRef\<close> creates them, for the two props of the component.\<close>

definition terminal_refs :: "bool \<Rightarrow> bool \<Rightarrow> terminal" where
  "terminal_refs voiceOutputEnabled isActive =
     \<lparr>ttsBufferRef = [], spokenContentRef = [], silentModeRef = True,
      voiceOutputEnabledRef = voiceOutputEnabled, isActiveRef = isActive\<rparr>"

text \<open>\<^verbatim>\<open>terminal.onData\<close>: the user typed something.\<close>

definition onData :: "terminal \<Rightarrow> terminal" where
  "onData t = (if silentModeRef t then t\<lparr>silentModeRef := False\<rparr> else t)"

text \<open>A replay buffer for the statements about the replay: chunk \<open>n\<close> holds the one
  segment \<^verbatim>\<open>Entry x\<close> followed by \<open>n\<close> more \<^verbatim>\<open>x\<close>.\<close>

definition entry :: "nat \<Rightarrow> jsstring" where
  "entry n = ascii ''Entry x'' @ replicate n 120"

definition entry_chunk :: "nat \<Rightarrow> jsstring" where
  "entry_chunk n = OPEN_TAG @ entry n @ CLOSE_TAG"

section \<open>The voice context: queue, processing loop, stop\<close>

text \<open>
  What \<^verbatim>\<open>window.electronAPI.voiceSpeak\<close> gives back: a promise that resolves to an
  object with \<^verbatim>\<open>success\<close>, \<^verbatim>\<open>audioData?\<close> and \<^verbatim>\<open>error?\<close>, or that rejects. A
  string field is truthy when it is there and not empty.
\<close>

datatype speak_result = Result bool "jsstring option" "jsstring option"

datatype outcome = Resolved speak_result | Rejected

definition truthy :: "jsstring option \<Rightarrow> bool" where
  "truthy v = (case v of None \<Rightarrow> False | Some s \<Rightarrow> s \<noteq> [])"

text \<open>
  \<^verbatim>\<open>processQueue\<close> is an asynchronous function. Between two events of the single-threaded
  event loop every invocation that got past its guard is suspended at one of its two
  \<^verbatim>\<open>await\<close>s: on the promise of a call of \<^verbatim>\<open>voiceSpeak\<close> (calls are numbered in the order
  they are made) or on the promise around an audio element (elements are numbered in the
  order they are created).
\<close>

datatype wait = AwaitSpeak nat | AwaitAudio nat

datatype audio_status = Playing | Paused | Ended | Failed

datatype log_entry = TTSError | AudioPlaybackError | FailedToPlay

record voice =
  speakQueueRef :: "jsstring list"
  isProcessingRef :: bool
  isSpeaking :: bool
  audioRef :: "nat option"
  ctxVoiceOutputEnabledRef :: bool
  loops :: "wait list"
  voiceSpeakCalls :: "jsstring list"
  audios :: "audio_status list"
  console :: "log_entry list"
  voiceStopSpeakingCalls :: nat

text \<open>
  The \<^verbatim>\<open>while\<close> loop of \<^verbatim>\<open>processQueue\<close> from its head to the next \<^verbatim>\<open>await\<close> or to
  the end of the function: empty texts are skipped; the first other text is sent to
  \<^verbatim>\<open>voiceSpeak\<close> and the invocation waits for the answer; with the queue empty the two
  flags are reset and the invocation is over.
\<close>

function while_queue :: "voice \<Rightarrow> voice" where
  "while_queue v =
     (case speakQueueRef v of
        [] \<Rightarrow> v\<lparr>isProcessingRef := False, isSpeaking := False\<rparr>
      | text # rest \<Rightarrow>
          if text = [] then while_queue (v\<lparr>speakQueueRef := rest\<rparr>)
          else v\<lparr>speakQueueRef := rest,
                 voiceSpeakCalls := voiceSpeakCalls v @ [text],
                 loops := loops v @ [AwaitSpeak (length (voiceSpeakCalls v))]\<rparr>)"
  by pat_completeness auto
termination
  by (relation "measure (\<lambda>v. length (speakQueueRef v))") auto

declare while_queue.simps [simp del]

definition processQueue :: "voice \<Rightarrow> voice" where
  "processQueue v =
     (if isProcessingRef v \<or> speakQueueRef v = [] then v
      else while_queue (v\<lparr>isProcessingRef := True, isSpeaking := True\<rparr>))"

text \<open>The cleaning in \<^verbatim>\<open>speakText\<close>. \<^verbatim>\<open>replace(/[\r\n]+/g, ' ')\<close> and
  \<^verbatim>\<open>replace(/\s+/g, ' ')\<close> replace every maximal run of the class by one space.\<close>

definition run_match :: "(nat \<Rightarrow> bool) \<Rightarrow> jsstring \<Rightarrow> nat option" where
  "run_match P s = (case takeWhile P s of [] \<Rightarrow> None | r \<Rightarrow> Some (length r))"

definition cleanText :: "jsstring \<Rightarrow> jsstring" where
  "cleanText text =
     trim (replace_all (run_match is_space) [32]
            (replace_all (run_match is_crlf) [32]
              (replace_all csi_match [] text)))"

definition speakText :: "jsstring \<Rightarrow> voice \<Rightarrow> voice" where
  "speakText text v =
     (if \<not> ctxVoiceOutputEnabledRef v then v
      else if length (cleanText text) < 3 then v
      else processQueue (v\<lparr>speakQueueRef := speakQueueRef v @ [cleanText text]\<rparr>))"

text \<open>\<^verbatim>\<open>audio.pause()\<close> on the element of \<^verbatim>\<open>audioRef\<close>.\<close>

definition pause :: "nat \<Rightarrow> audio_status list \<Rightarrow> audio_status list" where
  "pause a as = (if a < length as \<and> as ! a = Playing then as[a := Paused] else as)"

definition stopSpeaking :: "voice \<Rightarrow> voice" where
  "stopSpeaking v =
     v\<lparr>speakQueueRef := [],
       audios := (case audioRef v of None \<Rightarrow> audios v | Some a \<Rightarrow> pause a (audios v)),
       audioRef := None,
       voiceStopSpeakingCalls := voiceStopSpeakingCalls v + 1,
       isSpeaking := False,
       isProcessingRef := False\<rparr>"

text \<open>\<^verbatim>\<open>setVoiceOutputEnabled\<close>: React keeps the state and runs no effect when the
  new value is the old one. Otherwise the two effects that follow the state run: the ref
  is brought in line, and speaking is stopped when the output is switched off.\<close>

definition setVoiceOutputEnabled :: "bool \<Rightarrow> voice \<Rightarrow> voice" where
  "setVoiceOutputEnabled enabled v =
     (if ctxVoiceOutputEnabledRef v = enabled then v
      else (let v1 = v\<lparr>ctxVoiceOutputEnabledRef := enabled\<rparr>
            in if enabled then v1 else stopSpeaking v1))"

text \<open>
  The answer to call \<open>k\<close> of \<^verbatim>\<open>voiceSpeak\<close> arrives and the invocation that waits for it
  goes on. With \<^verbatim>\<open>success\<close> and audio data it builds the audio element, stores it in
  \<^verbatim>\<open>audioRef\<close>, starts it and waits for it; \<open>playable\<close> says whether building the element
  from the data goes through (\<^verbatim>\<open>atob\<close> throws on data that is not base64, which rejects
  the promise). Every other answer, and every exception, is at most logged, and the loop
  goes on with the next text.
\<close>

definition log :: "log_entry \<Rightarrow> voice \<Rightarrow> voice" where
  "log e v = v\<lparr>console := console v @ [e]\<rparr>"

definition speak_returned :: "nat \<Rightarrow> outcome \<Rightarrow> bool \<Rightarrow> voice \<Rightarrow> voice" where
  "speak_returned k out playable v =
     (if AwaitSpeak k \<in> set (loops v) then
        (let v1 = v\<lparr>loops := remove1 (AwaitSpeak k) (loops v)\<rparr> in
         case out of
           Rejected \<Rightarrow> while_queue (log TTSError v1)
         | Resolved (Result success audioData error) \<Rightarrow>
             if success \<and> truthy audioData then
               (if playable then
                  v1\<lparr>audios := audios v1 @ [Playing],
                      audioRef := Some (length (audios v1)),
                      loops := loops v1 @ [AwaitAudio (length (audios v1))]\<rparr>
                else while_queue (log TTSError v1))
             else if truthy error then while_queue (log TTSError v1)
             else while_queue v1)
      else v)"

text \<open>Whether an answer of \<^verbatim>\<open>voiceSpeak\<close> makes the loop start an audio element.\<close>

definition starts_playback :: "outcome \<Rightarrow> bool \<Rightarrow> bool" where
  "starts_playback out playable =
     (case out of
        Rejected \<Rightarrow> False
      | Resolved (Result success audioData error) \<Rightarrow> success \<and> truthy audioData \<and> playable)"

text \<open>The three ways the promise around an audio element resolves: \<^verbatim>\<open>onended\<close>,
  \<^verbatim>\<open>onerror\<close>, and the rejection of \<^verbatim>\<open>audio.play()\<close>. An element that was paused
  and dropped by \<^verbatim>\<open>stopSpeaking\<close> neither ends nor fails; only a promise of
  \<^verbatim>\<open>play()\<close> that is still pending is rejected by the pause.\<close>

definition audio_ended :: "nat \<Rightarrow> voice \<Rightarrow> voice" where
  "audio_ended a v =
     (if AwaitAudio a \<in> set (loops v) \<and> a < length (audios v) \<and> audios v ! a = Playing then
        while_queue (v\<lparr>loops := remove1 (AwaitAudio a) (loops v),
                        audios := (audios v)[a := Ended], audioRef := None\<rparr>)
      else v)"

definition audio_error :: "nat \<Rightarrow> voice \<Rightarrow> voice" where
  "audio_error a v =
     (if AwaitAudio a \<in> set (loops v) \<and> a < length (audios v) \<and> audios v ! a = Playing then
        while_queue (log AudioPlaybackError
          (v\<lparr>loops := remove1 (AwaitAudio a) (loops v),
              audios := (audios v)[a := Failed], audioRef := None\<rparr>))
      else v)"

definition play_rejected :: "nat \<Rightarrow> voice \<Rightarrow> voice" where
  "play_rejected a v =
     (if AwaitAudio a \<in> set (loops v) \<and> a < length (audios v)
         \<and> audios v ! a \<in> {Playing, Paused} then
        while_queue (log FailedToPlay
          (v\<lparr>loops := remove1 (AwaitAudio a) (loops v), audios := (audios v)[a := Failed]\<rparr>))
      else v)"

text \<open>The events of the voice context, and a run of events.\<close>

datatype event =
    SpeakText jsstring
  | StopSpeaking
  | SetVoiceOutputEnabled bool
  | SpeakReturned nat outcome bool
  | AudioEnded nat
  | AudioError nat
  | PlayRejected nat

fun step :: "voice \<Rightarrow> event \<Rightarrow> voice" where
  "step v (SpeakText text) = speakText text v"
| "step v StopSpeaking = stopSpeaking v"
| "step v (SetVoiceOutputEnabled b) = setVoiceOutputEnabled b v"
| "step v (SpeakReturned k out playable) = speak_returned k out playable v"
| "step v (AudioEnded a) = audio_ended a v"
| "step v (AudioError a) = audio_error a v"
| "step v (PlayRejected a) = play_rejected a v"

definition run :: "voice \<Rightarrow> event list \<Rightarrow> voice" where
  "run v evs = foldl step v evs"

text \<open>The provider after its first render: the state starts with the voice output off,
  and the effect that stops speaking while the output is off has run once. \<open>provider True\<close>
  is the provider after the output has been switched on, \<open>provider False\<close> the one
  where nothing has been switched.\<close>

definition VoiceProvider :: voice where
  "VoiceProvider =
     stopSpeaking
       \<lparr>speakQueueRef = [], isProcessingRef = False, isSpeaking = False, audioRef = None,
        ctxVoiceOutputEnabledRef = False, loops = [], voiceSpeakCalls = [], audios = [],
        console = [], voiceStopSpeakingCalls = 0\<rparr>"

definition provider :: "bool \<Rightarrow> voice" where
  "provider enabled = setVoiceOutputEnabled enabled VoiceProvider"

text \<open>The handler of the terminal in front of the voice context: the calls of
  \<^verbatim>\<open>speakText\<close> the handler makes for a chunk reach the context in their order.\<close>

definition onPtyData_voice :: "terminal \<times> voice \<Rightarrow> jsstring \<Rightarrow> terminal \<times> voice" where
  "onPtyData_voice tv payload =
     (case tv of (t, v) \<Rightarrow>
        (case onPtyData t payload of (t', calls) \<Rightarrow> (t', foldl (\<lambda>w c. speakText c w) v calls)))"

section \<open>The classifier\<close>

lemma test_anywhere_iff: "test_anywhere m s \<longleftrightarrow> (\<exists>pre post. s = pre @ post \<and> m post)"
proof (induction s)
  case Nil
  then show ?case by simp
next
  case (Cons c cs)
  show ?case
  proof
    assume "test_anywhere m (c # cs)"
    then consider "m (c # cs)" | "test_anywhere m cs" by auto
    then show "\<exists>pre post. c # cs = pre @ post \<and> m post"
    proof cases
      case 1
      then have "c # cs = [] @ (c # cs) \<and> m (c # cs)" by simp
      then show ?thesis by blast
    next
      case 2
      with Cons.IH obtain pre post where "cs = pre @ post" "m post" by blast
      then have "c # cs = (c # pre) @ post \<and> m post" by simp
      then show ?thesis by blast
    qed
  next
    assume "\<exists>pre post. c # cs = pre @ post \<and> m post"
    then obtain pre post where pp: "c # cs = pre @ post" "m post" by blast
    show "test_anywhere m (c # cs)"
    proof (cases pre)
      case Nil
      with pp have "m (c # cs)" by simp
      then show ?thesis by simp
    next
      case (Cons a pre')
      with pp have "cs = pre' @ post" by simp
      with pp(2) Cons.IH show ?thesis by auto
    qed
  qed
qed

lemma word_then_space_iff:
  "word_then_space w s \<longleftrightarrow> (\<exists>sp post. s = w @ sp # post \<and> is_space sp)"
  by (auto simp: word_then_space_def prefix_def split: list.splits)

lemma keyword_test:
  "test_anywhere (word_then_space w) s
     \<longleftrightarrow> (\<exists>pre sp post. s = pre @ w @ sp # post \<and> is_space sp)"
  unfolding test_anywhere_iff word_then_space_iff by blast

lemma alpha_facts: "is_alpha c \<Longrightarrow> \<not> is_space c \<and> c \<noteq> 47 \<and> c \<noteq> 35"
  by (auto simp: is_alpha_def is_space_def)

lemma prose_iff:
  "looksLikeProse content \<longleftrightarrow>
     5 < length content \<and> is_alpha (hd content) \<and> \<not> (\<exists>c\<in>set content. is_code_punct c)
     \<and> \<not> (\<exists>w\<in>{ascii ''function'', ascii ''const'', ascii ''let'', ascii ''var''}.
           \<exists>pre sp post. content = pre @ w @ sp # post \<and> is_space sp)"
proof (cases content)
  case Nil
  then show ?thesis by (simp add: looksLikeProse_def)
next
  case (Cons c cs)
  have a: "is_alpha c \<Longrightarrow> dropWhile is_space content = content" using Cons alpha_facts by simp
  have b: "is_alpha c \<Longrightarrow> \<not> prefix (ascii ''//'') content \<and> \<not> prefix (ascii ''#'') content"
    using Cons alpha_facts[of c] by (auto simp: ascii_def)
  show ?thesis
    unfolding looksLikeProse_def looksLikeCode_def keyword_test list_ex_iff
    using a b Cons by auto
qed


text \<open>
  Claim C7. The classifier rejects a segment of at most 5 code units; it rejects a segment
  with one of the code characters, or with one of the keywords \<^verbatim>\<open>function\<close>,
  \<^verbatim>\<open>const\<close>, \<^verbatim>\<open>let\<close>, \<^verbatim>\<open>var\<close> followed by white space, so every segment around
  \<^verbatim>\<open>function foo() {\<close> is rejected; and every other segment is accepted exactly when its
  first code unit is a letter.
\<close>

theorem classifier_policy:
  "(length content \<le> 5 \<longrightarrow> \<not> looksLikeProse content)
   \<and> ((\<exists>c\<in>set content. is_code_punct c) \<longrightarrow> \<not> looksLikeProse content)
   \<and> ((\<exists>w\<in>{ascii ''function'', ascii ''const'', ascii ''let'', ascii ''var''}.
          \<exists>pre sp post. content = pre @ w @ sp # post \<and> is_space sp)
        \<longrightarrow> \<not> looksLikeProse content)
   \<and> \<not> looksLikeProse (before @ ascii ''function foo() {'' @ after)
   \<and> (5 < length content \<and> \<not> (\<exists>c\<in>set content. is_code_punct c)
        \<and> \<not> (\<exists>w\<in>{ascii ''function'', ascii ''const'', ascii ''let'', ascii ''var''}.
               \<exists>pre sp post. content = pre @ w @ sp # post \<and> is_space sp)
        \<longrightarrow> looksLikeProse content = is_alpha (hd content))"
proof -
  have "is_code_punct 40" by (simp add: is_code_punct_def)
  moreover have "40 \<in> set (before @ ascii ''function foo() {'' @ after)"
    by (simp add: ascii_def)
  ultimately have "\<exists>c\<in>set (before @ ascii ''function foo() {'' @ after). is_code_punct c"
    by blast
  then have "\<not> looksLikeProse (before @ ascii ''function foo() {'' @ after)"
    using prose_iff by blast
  then show ?thesis
    using prose_iff [of content] by auto
qed

text \<open>The policy at five segments: too short, an assignment, a keyword inside prose, a
  plain sentence, and a sentence that starts with a digit.\<close>

theorem classifier_policy_witness:
  "\<not> looksLikeProse (ascii ''ok'')
   \<and> \<not> looksLikeProse (ascii ''Total = 42 items'')
   \<and> \<not> looksLikeProse (ascii ''Please let me know'')
   \<and> looksLikeProse (ascii ''Hello world.'')
   \<and> \<not> looksLikeProse (ascii ''1. Hello world'')"
proof -
  have 1: "\<not> looksLikeProse (ascii ''ok'')"
    using classifier_policy [of "ascii ''ok''"] by (simp add: ascii_def)
  have "is_code_punct 61" by (simp add: is_code_punct_def)
  then have "\<exists>c\<in>set (ascii ''Total = 42 items''). is_code_punct c"
    by (simp add: ascii_def)
  then have 2: "\<not> looksLikeProse (ascii ''Total = 42 items'')"
    using classifier_policy [of "ascii ''Total = 42 items''"] by blast
  have "ascii ''Please let me know'' = ascii ''Please '' @ ascii ''let'' @ 32 # ascii ''me know'' \<and> is_space 32"
    by (simp add: ascii_def is_space_def)
  then have 3: "\<not> looksLikeProse (ascii ''Please let me know'')"
    using classifier_policy [of "ascii ''Please let me know''"] by blast
  have nokw: "\<not> (\<exists>w\<in>{ascii ''function'', ascii ''const'', ascii ''let'', ascii ''var''}.
       \<exists>pre sp post. s = pre @ w @ sp # post \<and> is_space sp)"
    if "s = ascii ''Hello world.'' \<or> s = ascii ''1. Hello world''" for s
  proof -
    have "\<not> test_anywhere (word_then_space (ascii ''function'')) s
        \<and> \<not> test_anywhere (word_then_space (ascii ''const'')) s
        \<and> \<not> test_anywhere (word_then_space (ascii ''let'')) s
        \<and> \<not> test_anywhere (word_then_space (ascii ''var'')) s"
      using that by (auto simp: word_then_space_def ascii_def is_space_def)
    then show ?thesis
      unfolding keyword_test by blast
  qed
  have nopunct: "\<not> (\<exists>c\<in>set s. is_code_punct c)"
    if "s = ascii ''Hello world.'' \<or> s = ascii ''1. Hello world''" for s
    using that by (auto simp: ascii_def is_code_punct_def)
  have len: "5 < length (ascii ''Hello world.'')" "5 < length (ascii ''1. Hello world'')"
    by (simp_all add: ascii_def)
  have "looksLikeProse (ascii ''Hello world.'') = is_alpha (hd (ascii ''Hello world.''))"
    using classifier_policy [THEN conjunct2, THEN conjunct2, THEN conjunct2, THEN conjunct2,
        of "ascii ''Hello world.''"] nokw [OF disjI1, OF refl] nopunct [OF disjI1, OF refl] len(1)
    by (rule_tac mp) (assumption, intro conjI, assumption+)
  then have 4: "looksLikeProse (ascii ''Hello world.'')"
    by (simp add: ascii_def is_alpha_def)
  have "looksLikeProse (ascii ''1. Hello world'') = is_alpha (hd (ascii ''1. Hello world''))"
    using classifier_policy [THEN conjunct2, THEN conjunct2, THEN conjunct2, THEN conjunct2,
        of "ascii ''1. Hello world''"] nokw [OF disjI2, OF refl] nopunct [OF disjI2, OF refl] len(2)
    by (rule_tac mp) (assumption, intro conjI, assumption+)
  then have 5: "\<not> looksLikeProse (ascii ''1. Hello world'')"
    by (simp add: ascii_def is_alpha_def)
  show ?thesis using 1 2 3 4 5 by simp
qed

section \<open>The spoken set\<close>

lemma process_match_refs:
  "silentModeRef (fst (process_match (t, calls) g)) = silentModeRef t"
  "voiceOutputEnabledRef (fst (process_match (t, calls) g)) = voiceOutputEnabledRef t"
  "isActiveRef (fst (process_match (t, calls) g)) = isActiveRef t"
  "ttsBufferRef (fst (process_match (t, calls) g)) = ttsBufferRef t"
  by (simp_all add: process_match_def Let_def)

lemma process_match_cases:
  "process_match (t, calls) g =
     (if looksLikeProse (trim g) \<and> trim g \<notin> set (spokenContentRef t)
      then (t\<lparr>spokenContentRef := spokenContentRef t @ [trim g]\<rparr>,
            if gates_open t then calls @ [trim g] else calls)
      else (t, calls))"
  by (simp add: process_match_def Let_def set_add_def)

lemma foldl_process_match:
  "\<exists>new. foldl process_match (t, calls) gs =
           (t\<lparr>spokenContentRef := spokenContentRef t @ new\<rparr>,
            if gates_open t then calls @ new else calls)
     \<and> distinct new
     \<and> set new = {c \<in> trim ` set gs. looksLikeProse c} - set (spokenContentRef t)"
proof (induction gs arbitrary: t calls)
  case Nil
  have "foldl process_match (t, calls) [] =
           (t\<lparr>spokenContentRef := spokenContentRef t @ []\<rparr>,
            if gates_open t then calls @ [] else calls)" by simp
  then show ?case by (intro exI[of _ "[]"]) simp
next
  case (Cons g gs)
  show ?case
  proof (cases "looksLikeProse (trim g) \<and> trim g \<notin> set (spokenContentRef t)")
    case False
    then have "process_match (t, calls) g = (t, calls)"
      by (auto simp: process_match_cases)
    then have "foldl process_match (t, calls) (g # gs) = foldl process_match (t, calls) gs"
      by simp
    moreover from Cons.IH[of t calls] obtain new where
      "foldl process_match (t, calls) gs =
           (t\<lparr>spokenContentRef := spokenContentRef t @ new\<rparr>,
            if gates_open t then calls @ new else calls)"
      "distinct new"
      "set new = {c \<in> trim ` set gs. looksLikeProse c} - set (spokenContentRef t)" by blast
    moreover have "{c \<in> trim ` set (g # gs). looksLikeProse c} - set (spokenContentRef t)
        = {c \<in> trim ` set gs. looksLikeProse c} - set (spokenContentRef t)"
      using False by auto
    ultimately show ?thesis by auto
  next
    case True
    let ?t1 = "t\<lparr>spokenContentRef := spokenContentRef t @ [trim g]\<rparr>"
    let ?c1 = "if gates_open t then calls @ [trim g] else calls"
    have go: "gates_open ?t1 = gates_open t" by (simp add: gates_open_def)
    from True have "process_match (t, calls) g = (?t1, ?c1)"
      by (auto simp: process_match_cases)
    then have "foldl process_match (t, calls) (g # gs) = foldl process_match (?t1, ?c1) gs"
      by simp
    moreover from Cons.IH[of ?t1 ?c1] obtain new where n:
      "foldl process_match (?t1, ?c1) gs =
           (?t1\<lparr>spokenContentRef := spokenContentRef ?t1 @ new\<rparr>,
            if gates_open ?t1 then ?c1 @ new else ?c1)"
      "distinct new"
      "set new = {c \<in> trim ` set gs. looksLikeProse c} - set (spokenContentRef ?t1)" by blast
    ultimately have "foldl process_match (t, calls) (g # gs) =
        (t\<lparr>spokenContentRef := spokenContentRef t @ (trim g # new)\<rparr>,
            if gates_open t then calls @ (trim g # new) else calls)"
      using go by simp
    moreover have "distinct (trim g # new)" using n(2,3) by auto
    moreover have "set (trim g # new) = {c \<in> trim ` set (g # gs). looksLikeProse c} - set (spokenContentRef t)"
      using n(3) True by auto
    ultimately show ?thesis by blast
  qed
qed

text \<open>
  Claim C4. For a segment that reaches the check against the spoken set (the classifier
  accepted it): when it is in the set, nothing changes and \<^verbatim>\<open>speakText\<close> is not called;
  otherwise it is entered at the end of the set, whatever the three gates say, and
  \<^verbatim>\<open>speakText\<close> is called exactly when all three gates are open. So within one run of
  the loop no text is passed to \<^verbatim>\<open>speakText\<close> twice, and none that was in the set.
\<close>

theorem dedup_ledger:
  assumes "looksLikeProse (trim g)"
  shows "(trim g \<in> set (spokenContentRef t) \<longrightarrow> process_match (t, calls) g = (t, calls))
     \<and> (trim g \<notin> set (spokenContentRef t) \<longrightarrow>
          spokenContentRef (fst (process_match (t, calls) g)) = spokenContentRef t @ [trim g]
          \<and> snd (process_match (t, calls) g) =
              (if voiceOutputEnabledRef t \<and> isActiveRef t \<and> \<not> silentModeRef t
               then calls @ [trim g] else calls))
     \<and> distinct (snd (tag_loop t buffer))
     \<and> set (snd (tag_loop t buffer)) \<inter> set (spokenContentRef t) = {}"
proof -
  obtain new where n: "tag_loop t buffer =
           (t\<lparr>spokenContentRef := spokenContentRef t @ new\<rparr>,
            if gates_open t then [] @ new else [])"
     "distinct new"
     "set new = {c \<in> trim ` set (fst (extract_tags buffer)). looksLikeProse c} - set (spokenContentRef t)"
    unfolding tag_loop_def using foldl_process_match[of t "[]" "fst (extract_tags buffer)"] by blast
  have "distinct (snd (tag_loop t buffer))" using n(1,2) by simp
  moreover have "set (snd (tag_loop t buffer)) \<inter> set (spokenContentRef t) = {}"
    using n(1,3) by auto
  ultimately show ?thesis using assms
    by (simp add: process_match_cases gates_open_def)
qed

text \<open>A fresh segment with the gates open and with the tab in the background, and a
  segment that is in the set already.\<close>

theorem dedup_ledger_witness:
  "process_match
     (\<lparr>ttsBufferRef = [], spokenContentRef = [ascii ''Hello world.''], silentModeRef = False,
       voiceOutputEnabledRef = True, isActiveRef = True\<rparr>, []) (ascii '' Hello world. '')
     = (\<lparr>ttsBufferRef = [], spokenContentRef = [ascii ''Hello world.''], silentModeRef = False,
         voiceOutputEnabledRef = True, isActiveRef = True\<rparr>, [])
   \<and> process_match
     (\<lparr>ttsBufferRef = [], spokenContentRef = [], silentModeRef = False,
       voiceOutputEnabledRef = True, isActiveRef = True\<rparr>, []) (ascii '' Hello world. '')
     = (\<lparr>ttsBufferRef = [], spokenContentRef = [ascii ''Hello world.''], silentModeRef = False,
         voiceOutputEnabledRef = True, isActiveRef = True\<rparr>, [ascii ''Hello world.''])
   \<and> process_match
     (\<lparr>ttsBufferRef = [], spokenContentRef = [], silentModeRef = False,
       voiceOutputEnabledRef = True, isActiveRef = False\<rparr>, []) (ascii '' Hello world. '')
     = (\<lparr>ttsBufferRef = [], spokenContentRef = [ascii ''Hello world.''], silentModeRef = False,
         voiceOutputEnabledRef = True, isActiveRef = False\<rparr>, [])"
proof -
  have t: "trim (ascii '' Hello world. '') = ascii ''Hello world.''"
    by (simp add: trim_def ascii_def is_space_def)
  have p: "looksLikeProse (trim (ascii '' Hello world. ''))"
    unfolding t
    by (simp add: looksLikeProse_def looksLikeCode_def word_then_space_def ascii_def
        is_alpha_def is_code_punct_def is_space_def)
  show ?thesis
    using dedup_ledger [OF p, of "\<lparr>ttsBufferRef = [], spokenContentRef = [ascii ''Hello world.''],
        silentModeRef = False, voiceOutputEnabledRef = True, isActiveRef = True\<rparr>" "[]"]
      dedup_ledger [OF p, of "\<lparr>ttsBufferRef = [], spokenContentRef = [],
        silentModeRef = False, voiceOutputEnabledRef = True, isActiveRef = True\<rparr>" "[]"]
      dedup_ledger [OF p, of "\<lparr>ttsBufferRef = [], spokenContentRef = [],
        silentModeRef = False, voiceOutputEnabledRef = True, isActiveRef = False\<rparr>" "[]"]
    by (simp add: t prod_eq_iff process_match_refs)
qed

lemma limit_spoken_le: "length (limit_spoken xs) \<le> 1000"
  by (simp add: limit_spoken_def)

lemma onPtyData_spoken:
  "spokenContentRef (fst (onPtyData t payload))
     = limit_spoken (spokenContentRef (fst (tag_loop t (ttsBufferRef t @ stripAnsi payload))))"
  by (simp add: onPtyData_def Let_def split: prod.splits)

lemma fst_feed_Cons: "fst (feed t (p # chunks)) = fst (feed (fst (onPtyData t p)) chunks)"
  by (simp split: prod.splits)

lemma feed_spoken_le:
  "length (spokenContentRef t) \<le> 1000 \<Longrightarrow> length (spokenContentRef (fst (feed t chunks))) \<le> 1000"
proof (induction chunks arbitrary: t)
  case Nil
  then show ?case by simp
next
  case (Cons p chunks)
  have "length (spokenContentRef (fst (onPtyData t p))) \<le> 1000"
    by (simp add: onPtyData_spoken limit_spoken_le)
  from Cons.IH[OF this] show ?case by (simp only: fst_feed_Cons)
qed

text \<open>
  The ceiling in the handler of \<^verbatim>\<open>onPtyData\<close>. After every run of the handler, from
  any state of the refs, the spoken set has at most 1000 entries; and when the loop over
  the matches of a chunk leaves more than 1000 entries, the handler keeps the last 500 of
  them, in their order. The replay on mount has no such cut (see the section on the
  replay).
\<close>

lemma spoken_set_ceiling:
  "length (spokenContentRef (fst (feed t (payload # chunks)))) \<le> 1000
   \<and> (let entries = spokenContentRef (fst (tag_loop t (ttsBufferRef t @ stripAnsi payload)));
           kept = spokenContentRef (fst (onPtyData t payload))
       in if length entries > 1000
          then kept = drop (length entries - 500) entries \<and> length kept = 500
          else kept = entries)"
proof -
  have "length (spokenContentRef (fst (onPtyData t payload))) \<le> 1000"
    by (simp add: onPtyData_spoken limit_spoken_le)
  from feed_spoken_le[OF this, of chunks]
  have "length (spokenContentRef (fst (feed t (payload # chunks)))) \<le> 1000"
    by (simp only: fst_feed_Cons)
  then show ?thesis
    by (simp add: onPtyData_spoken limit_spoken_def Let_def)
qed

section \<open>Segments across chunk boundaries\<close>

lemma replace_all_id:
  assumes "\<And>c cs. m (c # cs) \<noteq> None \<Longrightarrow> c = ESC" and "ESC \<notin> set s"
  shows "replace_all m r s = s"
  using assms(2)
proof (induction s)
  case Nil
  then show ?case by simp
next
  case (Cons c cs)
  have "m (c # cs) = None"
  proof (rule ccontr)
    assume "m (c # cs) \<noteq> None"
    then have "c = ESC" by (rule assms(1))
    with Cons.prems show False by simp
  qed
  with Cons show ?case by simp
qed

lemma csi_match_ESC: "csi_match (c # cs) \<noteq> None \<Longrightarrow> c = ESC"
  by (auto simp: csi_match_def split: if_splits)

lemma osc_match_ESC: "osc_match (c # cs) \<noteq> None \<Longrightarrow> c = ESC"
  by (auto simp: osc_match_def split: if_splits)

lemma private_match_ESC: "private_match (c # cs) \<noteq> None \<Longrightarrow> c = ESC"
  by (auto simp: private_match_def split: if_splits)

lemma string_seq_match_ESC: "string_seq_match (c # cs) \<noteq> None \<Longrightarrow> c = ESC"
  by (auto simp: string_seq_match_def split: if_splits list.splits)

lemma stripAnsi_plain:
  assumes "\<forall>c\<in>set s. \<not> is_ctrl c"
  shows "stripAnsi s = s"
proof -
  have "is_ctrl ESC" by (simp add: is_ctrl_def ESC_def)
  with assms have "ESC \<notin> set s" by blast
  then have e: "ESC \<notin> set s" .
  have "replace_all csi_match [] s = s"
    using csi_match_ESC e by (rule replace_all_id)
  moreover have "replace_all osc_match [] s = s"
    using osc_match_ESC e by (rule replace_all_id)
  moreover have "replace_all private_match [] s = s"
    using private_match_ESC e by (rule replace_all_id)
  moreover have "replace_all string_seq_match [] s = s"
    using string_seq_match_ESC e by (rule replace_all_id)
  ultimately show ?thesis
    using assms by (simp add: stripAnsi_def)
qed

lemma indexOf_skip:
  assumes "pat \<noteq> []" and "hd pat \<notin> set pre"
  shows "indexOf pat (pre @ s) = map_option (\<lambda>i. length pre + i) (indexOf pat s)"
  using assms(2)
proof (induction pre)
  case Nil
  then show ?case by (simp add: option.map_ident)
next
  case (Cons c pre)
  from assms(1) obtain p ps where pat: "pat = p # ps" by (cases pat) auto
  with Cons.prems have "\<not> prefix pat ((c # pre) @ s)" by auto
  with Cons show ?case by (simp add: option.map_comp comp_def)
qed

lemma indexOf_here: "pat \<noteq> [] \<Longrightarrow> indexOf pat (pat @ s) = Some 0"
  by (cases pat) auto

lemma indexOf_absent:
  assumes "pat \<noteq> []" and "hd pat \<notin> set s"
  shows "indexOf pat s = None"
  using assms(2)
proof (induction s)
  case Nil
  with assms(1) show ?case by simp
next
  case (Cons c s)
  from assms(1) obtain p ps where "pat = p # ps" by (cases pat) auto
  with Cons show ?case by auto
qed

lemma tag_exec_pair:
  assumes "LAQUO \<notin> set pre" and "LAQUO \<notin> set body"
  shows "tag_exec (pre @ OPEN_TAG @ body @ CLOSE_TAG @ post) = Some (body, post)"
proof -
  have "indexOf OPEN_TAG (pre @ OPEN_TAG @ body @ CLOSE_TAG @ post) = Some (length pre)"
    using assms(1) by (simp add: indexOf_skip indexOf_here OPEN_TAG_def)
  moreover have "indexOf CLOSE_TAG (body @ CLOSE_TAG @ post) = Some (length body)"
    using assms(2) by (simp add: indexOf_skip indexOf_here CLOSE_TAG_def)
  ultimately show ?thesis
    by (simp add: tag_exec_def)
qed

lemma tag_exec_open:
  assumes "LAQUO \<notin> set pre" and "LAQUO \<notin> set body"
  shows "tag_exec (pre @ OPEN_TAG @ body) = None"
proof -
  have "indexOf OPEN_TAG (pre @ OPEN_TAG @ body) = Some (length pre)"
    using assms(1) by (simp add: indexOf_skip indexOf_here OPEN_TAG_def)
  moreover have "indexOf CLOSE_TAG body = None"
    using assms(2) by (simp add: indexOf_absent CLOSE_TAG_def)
  ultimately show ?thesis
    by (simp add: tag_exec_def)
qed

lemma extract_tags_plain:
  assumes "LAQUO \<notin> set s"
  shows "extract_tags s = ([], s)"
proof -
  have "indexOf OPEN_TAG s = None"
    using assms by (simp add: indexOf_absent OPEN_TAG_def)
  then show ?thesis
    by (simp add: extract_tags.simps tag_exec_def)
qed

lemma extract_tags_open:
  "LAQUO \<notin> set pre \<Longrightarrow> LAQUO \<notin> set body \<Longrightarrow>
     extract_tags (pre @ OPEN_TAG @ body) = ([], pre @ OPEN_TAG @ body)"
  by (simp add: extract_tags.simps [of "pre @ OPEN_TAG @ body"] tag_exec_open)

lemma extract_tags_pair:
  "LAQUO \<notin> set pre \<Longrightarrow> LAQUO \<notin> set body \<Longrightarrow> LAQUO \<notin> set post \<Longrightarrow>
     extract_tags (pre @ OPEN_TAG @ body @ CLOSE_TAG @ post) = ([body], post)"
  by (simp add: extract_tags.simps [of "pre @ OPEN_TAG @ body @ CLOSE_TAG @ post"]
      tag_exec_pair extract_tags_plain)

lemma includes_open_mark:
  "LAQUO \<notin> set pre \<Longrightarrow> js_includes OPEN_MARK (pre @ OPEN_TAG @ body)"
proof -
  assume "LAQUO \<notin> set pre"
  then have "indexOf OPEN_MARK (pre @ OPEN_MARK @ (RAQUO # body)) = Some (length pre)"
    by (simp add: indexOf_skip indexOf_here OPEN_MARK_def)
  then show ?thesis
    by (simp add: js_includes_def OPEN_MARK_def OPEN_TAG_def)
qed

lemma carry_over_open:
  assumes "LAQUO \<notin> set pre" and "LAQUO \<notin> set body"
  shows "carry_over (pre @ OPEN_TAG @ body)
     = drop (length (pre @ OPEN_TAG @ body) - 2000) (pre @ OPEN_TAG @ body)"
  using assms
  by (simp add: carry_over_def Let_def extract_tags_open includes_open_mark del: drop_append)

lemma hello_facts:
  "LAQUO \<notin> set (ascii ''Hello wo'')" "LAQUO \<notin> set (ascii ''Hello world.'')"
  "\<forall>c\<in>set (OPEN_TAG @ ascii ''Hello wo''). \<not> is_ctrl c"
  "\<forall>c\<in>set (ascii ''rld.'' @ CLOSE_TAG). \<not> is_ctrl c"
  "trim (ascii ''Hello world.'') = ascii ''Hello world.''"
  "ascii ''Hello wo'' @ ascii ''rld.'' = ascii ''Hello world.''"
  "length (OPEN_TAG @ ascii ''Hello wo'') = 13"
  by (simp_all add: ascii_def LAQUO_def RAQUO_def is_ctrl_def OPEN_TAG_def CLOSE_TAG_def
      trim_def is_space_def)

lemma hello_prose: "looksLikeProse (ascii ''Hello world.'')"
  by (simp add: looksLikeProse_def looksLikeCode_def word_then_space_def ascii_def
      is_alpha_def is_code_punct_def is_space_def)

text \<open>
  Claim C2. Let the buffer be empty and let the text around the markers have neither
  control characters nor a left guillemet. A chunk that ends with the opening marker and
  \<^verbatim>\<open>Hello wo\<close> yields no segment and no call of \<^verbatim>\<open>speakText\<close>; the next chunk, which
  begins with \<^verbatim>\<open>rld.\<close> and the closing marker, yields exactly the segment
  \<^verbatim>\<open>Hello world.\<close>, which is passed to \<^verbatim>\<open>speakText\<close> when the gates are open and the
  spoken set does not have it.
\<close>

theorem hello_world_across_chunks:
  assumes "\<forall>c\<in>set pre. \<not> is_ctrl c \<and> c \<noteq> LAQUO"
    and "\<forall>c\<in>set post. \<not> is_ctrl c \<and> c \<noteq> LAQUO"
    and "ttsBufferRef t = []"
  shows "segments t (pre @ OPEN_TAG @ ascii ''Hello wo'') = []
     \<and> snd (onPtyData t (pre @ OPEN_TAG @ ascii ''Hello wo'')) = []
     \<and> segments (fst (onPtyData t (pre @ OPEN_TAG @ ascii ''Hello wo'')))
          (ascii ''rld.'' @ CLOSE_TAG @ post) = [ascii ''Hello world.'']
     \<and> snd (onPtyData (fst (onPtyData t (pre @ OPEN_TAG @ ascii ''Hello wo'')))
          (ascii ''rld.'' @ CLOSE_TAG @ post))
         = (if gates_open t \<and> ascii ''Hello world.'' \<notin> set (limit_spoken (spokenContentRef t))
            then [ascii ''Hello world.''] else [])"
proof -
  let ?c1 = "pre @ OPEN_TAG @ ascii ''Hello wo''"
  let ?c2 = "ascii ''rld.'' @ CLOSE_TAG @ post"
  let ?k = "length ?c1 - 2000"
  from assms(1) have pre: "LAQUO \<notin> set pre" "\<forall>c\<in>set pre. \<not> is_ctrl c" by auto
  from assms(2) have post: "LAQUO \<notin> set post" "\<forall>c\<in>set post. \<not> is_ctrl c" by auto
  have s1: "stripAnsi ?c1 = ?c1"
    using pre(2) hello_facts(3) by (intro stripAnsi_plain) auto
  have s2: "stripAnsi ?c2 = ?c2"
    using post(2) hello_facts(4) by (intro stripAnsi_plain) auto
  have e1: "extract_tags ?c1 = ([], ?c1)"
    using pre(1) hello_facts(1) by (rule extract_tags_open)
  have seg1: "segments t ?c1 = []"
    using assms(3) s1 e1 by (simp add: segments_def)
  have calls1: "snd (onPtyData t ?c1) = []"
    using assms(3) s1 e1 by (simp add: onPtyData_def tag_loop_def Let_def split: prod.splits)
  have "?k \<le> length pre" using hello_facts(7) by simp
  then have d: "drop ?k ?c1 = drop ?k pre @ OPEN_TAG @ ascii ''Hello wo''"
    by simp
  have "ttsBufferRef (fst (onPtyData t ?c1)) = carry_over ?c1"
    using assms(3) s1 by (simp add: onPtyData_def Let_def split: prod.splits)
  also have "\<dots> = drop ?k pre @ OPEN_TAG @ ascii ''Hello wo''"
    using carry_over_open[OF pre(1) hello_facts(1)] d by simp
  finally have b1: "ttsBufferRef (fst (onPtyData t ?c1)) = drop ?k pre @ OPEN_TAG @ ascii ''Hello wo''" .
  have "LAQUO \<notin> set (drop ?k pre)" using pre(1) by (auto dest: in_set_dropD)
  then have e2: "extract_tags (drop ?k pre @ OPEN_TAG @ ascii ''Hello world.'' @ CLOSE_TAG @ post)
      = ([ascii ''Hello world.''], post)"
    using hello_facts(2) post(1) by (rule extract_tags_pair)
  have b2: "ttsBufferRef (fst (onPtyData t ?c1)) @ ?c2
      = drop ?k pre @ OPEN_TAG @ ascii ''Hello world.'' @ CLOSE_TAG @ post"
    using b1 hello_facts(6) [symmetric] by simp
  have "segments (fst (onPtyData t ?c1)) ?c2
      = map trim (fst (extract_tags (ttsBufferRef (fst (onPtyData t ?c1)) @ ?c2)))"
    by (simp only: segments_def s2)
  also have "\<dots> = map trim [ascii ''Hello world.'']"
    by (simp only: b2 e2 fst_conv)
  finally have seg2: "segments (fst (onPtyData t ?c1)) ?c2 = [ascii ''Hello world.'']"
    by (simp add: hello_facts(5))
  let ?t1 = "fst (onPtyData t ?c1)"
  have t1: "gates_open ?t1 = gates_open t"
    "spokenContentRef ?t1 = limit_spoken (spokenContentRef t)"
    using assms(3) s1 e1
    by (simp_all add: onPtyData_def tag_loop_def Let_def gates_open_def split: prod.splits)
  have "snd (onPtyData ?t1 ?c2) = snd (tag_loop ?t1 (ttsBufferRef ?t1 @ ?c2))"
    by (simp add: onPtyData_def Let_def s2 split: prod.splits)
  also have "\<dots> = snd (process_match (?t1, []) (ascii ''Hello world.''))"
    by (simp only: tag_loop_def b2 e2 fst_conv foldl.simps)
  also have "\<dots> = (if gates_open t \<and> ascii ''Hello world.'' \<notin> set (limit_spoken (spokenContentRef t))
            then [ascii ''Hello world.''] else [])"
    using hello_prose by (simp add: process_match_cases hello_facts(5) t1)
  finally have calls2: "snd (onPtyData ?t1 ?c2)
      = (if gates_open t \<and> ascii ''Hello world.'' \<notin> set (limit_spoken (spokenContentRef t))
            then [ascii ''Hello world.''] else [])" .
  from seg1 calls1 seg2 calls2 show ?thesis by simp
qed


text \<open>The two chunks in a session that was just mounted, and in one whose user has
  typed, with the voice output on and the tab in front.\<close>

theorem hello_world_across_chunks_witness:
  "segments (mount (terminal_refs True True) []) (ascii ''Working... '' @ OPEN_TAG @ ascii ''Hello wo'') = []
   \<and> snd (onPtyData (mount (terminal_refs True True) []) (ascii ''Working... '' @ OPEN_TAG @ ascii ''Hello wo'')) = []
   \<and> segments (fst (onPtyData (mount (terminal_refs True True) []) (ascii ''Working... '' @ OPEN_TAG @ ascii ''Hello wo'')))
        (ascii ''rld.'' @ CLOSE_TAG @ ascii '' Done.'') = [ascii ''Hello world.'']
   \<and> snd (onPtyData (fst (onPtyData (onData (mount (terminal_refs True True) [])\<lparr>voiceOutputEnabledRef := True, isActiveRef := True\<rparr>)
          (ascii ''Working... '' @ OPEN_TAG @ ascii ''Hello wo'')))
        (ascii ''rld.'' @ CLOSE_TAG @ ascii '' Done.'')) = [ascii ''Hello world.'']"
proof -
  have pre: "\<forall>c\<in>set (ascii ''Working... ''). \<not> is_ctrl c \<and> c \<noteq> LAQUO"
    by (simp add: ascii_def is_ctrl_def LAQUO_def)
  have post: "\<forall>c\<in>set (ascii '' Done.''). \<not> is_ctrl c \<and> c \<noteq> LAQUO"
    by (simp add: ascii_def is_ctrl_def LAQUO_def)
  have b: "ttsBufferRef (mount (terminal_refs True True) []) = []"
    "ttsBufferRef (onData (mount (terminal_refs True True) [])\<lparr>voiceOutputEnabledRef := True, isActiveRef := True\<rparr>) = []"
    by (simp_all add: mount_def onData_def)
  show ?thesis
    using hello_world_across_chunks [OF pre post b(1)] hello_world_across_chunks [OF pre post b(2)]
    by (simp add: gates_open_def onData_def mount_def limit_spoken_def)
qed

section \<open>The enqueue operation\<close>

lemma provider_refs:
  "provider enabled =
     \<lparr>speakQueueRef = [], isProcessingRef = False, isSpeaking = False, audioRef = None,
      ctxVoiceOutputEnabledRef = enabled, loops = [], voiceSpeakCalls = [], audios = [],
      console = [], voiceStopSpeakingCalls = 1\<rparr>"
  by (cases enabled)
    (simp_all add: provider_def VoiceProvider_def setVoiceOutputEnabled_def stopSpeaking_def)

lemma length_ascii [simp]: "length (ascii s) = length s"
  by (simp add: ascii_def)

lemma ascii_eq_iff [simp]: "ascii s = ascii t \<longleftrightarrow> s = t"
  unfolding ascii_def by (rule inj_map_eq_map) (simp add: inj_def)

lemma ascii_Nil_iff [simp]: "ascii s = [] \<longleftrightarrow> s = []"
  by (simp add: ascii_def)

lemma while_queue_empty:
  "speakQueueRef v = [] \<Longrightarrow> while_queue v = v\<lparr>isProcessingRef := False, isSpeaking := False\<rparr>"
  by (simp add: while_queue.simps [of v])

lemma while_queue_next:
  "speakQueueRef v = text # rest \<Longrightarrow> text \<noteq> [] \<Longrightarrow>
     while_queue v = v\<lparr>speakQueueRef := rest,
                        voiceSpeakCalls := voiceSpeakCalls v @ [text],
                        loops := loops v @ [AwaitSpeak (length (voiceSpeakCalls v))]\<rparr>"
  by (simp add: while_queue.simps [of v])

lemma replace_runs_class:
  "\<forall>c\<in>set (replace_all (run_match P) [r] s). P c \<longrightarrow> c = r"
proof (induction "run_match P" "[r]" s rule: replace_all.induct)
  case 1
  then show ?case by simp
next
  case (2 c cs)
  show ?case
  proof (cases "run_match P (c # cs)")
    case None
    then have "\<not> P c" by (auto simp: run_match_def split: list.splits if_splits)
    with 2 None show ?thesis by auto
  next
    case (Some n)
    with 2 show ?thesis by auto
  qed
qed

lemma set_trim: "set (trim s) \<subseteq> set s"
  by (auto simp: trim_def dest!: set_dropWhileD)

lemma cleanText_spaces: "\<forall>c\<in>set (cleanText text). is_space c \<longrightarrow> c = 32"
  using replace_runs_class [of is_space 32] set_trim unfolding cleanText_def by blast

lemma cleanText_no_newline: "10 \<notin> set (cleanText text) \<and> 13 \<notin> set (cleanText text)"
proof -
  have "is_space 10" "is_space 13" by (simp_all add: is_space_def)
  then show ?thesis using cleanText_spaces [of "text"] by fastforce
qed

lemma speakText_off:
  "\<not> ctxVoiceOutputEnabledRef v \<or> length (cleanText text) < 3 \<Longrightarrow> speakText text v = v"
  by (auto simp: speakText_def)

lemma speakText_busy:
  "ctxVoiceOutputEnabledRef v \<Longrightarrow> 3 \<le> length (cleanText text) \<Longrightarrow> isProcessingRef v \<Longrightarrow>
     speakText text v = v\<lparr>speakQueueRef := speakQueueRef v @ [cleanText text]\<rparr>"
  by (simp add: speakText_def processQueue_def)

lemma speakText_idle:
  assumes "ctxVoiceOutputEnabledRef v" and "3 \<le> length (cleanText text)"
    and "\<not> isProcessingRef v" and "speakQueueRef v = []"
  shows "speakText text v = v\<lparr>isProcessingRef := True, isSpeaking := True,
              voiceSpeakCalls := voiceSpeakCalls v @ [cleanText text],
              loops := loops v @ [AwaitSpeak (length (voiceSpeakCalls v))]\<rparr>"
proof -
  from assms(2) have ne: "cleanText text \<noteq> []" by auto
  let ?v2 = "v\<lparr>speakQueueRef := speakQueueRef v @ [cleanText text],
               isProcessingRef := True, isSpeaking := True\<rparr>"
  have "speakText text v = while_queue ?v2"
    using assms by (simp add: speakText_def processQueue_def)
  also have "\<dots> = ?v2\<lparr>speakQueueRef := [],
                        voiceSpeakCalls := voiceSpeakCalls ?v2 @ [cleanText text],
                        loops := loops ?v2 @ [AwaitSpeak (length (voiceSpeakCalls ?v2))]\<rparr>"
    using assms(4) ne by (intro while_queue_next) simp_all
  finally show ?thesis using assms(4) by simp
qed

text \<open>
  Claim C10. \<^verbatim>\<open>speakText\<close> leaves everything as it is when the voice output is off or
  the cleaned text has fewer than 3 code units. Otherwise it puts exactly the cleaned text
  at the end of the queue and calls \<^verbatim>\<open>processQueue\<close>: while a loop is processing, the
  queue is the old one with the cleaned text behind it; from the idle state the loop starts
  and sends that text to \<^verbatim>\<open>voiceSpeak\<close> at once. The cleaned text has no line feed and
  no carriage return, and no white space but single spaces.
\<close>

theorem speakText_enqueue:
  "(\<not> ctxVoiceOutputEnabledRef v \<or> length (cleanText text) < 3 \<longrightarrow> speakText text v = v)
   \<and> (ctxVoiceOutputEnabledRef v \<and> 3 \<le> length (cleanText text) \<and> isProcessingRef v \<longrightarrow>
        speakText text v = v\<lparr>speakQueueRef := speakQueueRef v @ [cleanText text]\<rparr>)
   \<and> (ctxVoiceOutputEnabledRef v \<and> 3 \<le> length (cleanText text) \<and> \<not> isProcessingRef v
        \<and> speakQueueRef v = [] \<longrightarrow>
        speakText text v = v\<lparr>isProcessingRef := True, isSpeaking := True,
              voiceSpeakCalls := voiceSpeakCalls v @ [cleanText text],
              loops := loops v @ [AwaitSpeak (length (voiceSpeakCalls v))]\<rparr>)
   \<and> 10 \<notin> set (cleanText text) \<and> 13 \<notin> set (cleanText text)
   \<and> (\<forall>c\<in>set (cleanText text). is_space c \<longrightarrow> c = 32)"
  using speakText_off [of v "text"] speakText_busy [of v "text"] speakText_idle [of v "text"]
    cleanText_no_newline [of "text"] cleanText_spaces [of "text"]
  by blast

lemmas eval_text = cleanText_def csi_match_def run_match_def trim_def is_space_def is_crlf_def
  is_param_def is_alpha_def ascii_def ESC_def

text \<open>The four cases: output off, a text of two code units, a text with an escape
  sequence, a line break and runs of spaces from the idle state, and a second text while
  the first is being synthesised.\<close>

theorem speakText_enqueue_witness:
  "speakText (ascii ''Hello world'') (provider False) = provider False
   \<and> speakText (ascii ''ok'') (provider True) = provider True
   \<and> speakText (ascii '' Hello'' @ 27 # ascii ''[1m'' @ 13 # 10 # ascii ''  world '') (provider True)
       = (provider True)\<lparr>isProcessingRef := True, isSpeaking := True,
            voiceSpeakCalls := [ascii ''Hello world''], loops := [AwaitSpeak 0]\<rparr>
   \<and> speakText (ascii ''Second one'')
         ((provider True)\<lparr>isProcessingRef := True, isSpeaking := True,
            voiceSpeakCalls := [ascii ''Hello world''], loops := [AwaitSpeak 0]\<rparr>)
       = (provider True)\<lparr>isProcessingRef := True, isSpeaking := True,
            voiceSpeakCalls := [ascii ''Hello world''], loops := [AwaitSpeak 0],
            speakQueueRef := [ascii ''Second one'']\<rparr>"
proof -
  let ?t3 = "ascii '' Hello'' @ 27 # ascii ''[1m'' @ 13 # 10 # ascii ''  world ''"
  let ?busy = "(provider True)\<lparr>isProcessingRef := True, isSpeaking := True,
            voiceSpeakCalls := [ascii ''Hello world''], loops := [AwaitSpeak 0]\<rparr>"
  have c: "cleanText (ascii ''ok'') = ascii ''ok''"
    "cleanText ?t3 = ascii ''Hello world''"
    "cleanText (ascii ''Second one'') = ascii ''Second one''"
    by (simp_all add: eval_text)
  have 1: "speakText (ascii ''Hello world'') (provider False) = provider False"
    by (rule speakText_enqueue [THEN conjunct1, THEN mp]) (simp add: provider_refs)
  have 2: "speakText (ascii ''ok'') (provider True) = provider True"
    by (rule speakText_enqueue [THEN conjunct1, THEN mp]) (simp add: c)
  have "speakText ?t3 (provider True)
      = (provider True)\<lparr>isProcessingRef := True, isSpeaking := True,
            voiceSpeakCalls := voiceSpeakCalls (provider True) @ [cleanText ?t3],
            loops := loops (provider True) @ [AwaitSpeak (length (voiceSpeakCalls (provider True)))]\<rparr>"
    by (rule speakText_enqueue [THEN conjunct2, THEN conjunct2, THEN conjunct1, THEN mp])
      (simp add: c provider_refs)
  then have 3: "speakText ?t3 (provider True) = ?busy"
    by (simp add: c provider_refs)
  have "speakText (ascii ''Second one'') ?busy
      = ?busy\<lparr>speakQueueRef := speakQueueRef ?busy @ [cleanText (ascii ''Second one'')]\<rparr>"
    by (rule speakText_enqueue [THEN conjunct2, THEN conjunct1, THEN mp])
      (simp add: c provider_refs)
  then have 4: "speakText (ascii ''Second one'') ?busy
      = ?busy\<lparr>speakQueueRef := [ascii ''Second one'']\<rparr>"
    by (simp add: c provider_refs)
  from 1 2 3 4 show ?thesis by blast
qed

section \<open>Failures in the processing loop\<close>

lemma while_queue_console [simp]: "console (while_queue v) = console v"
proof (induction v rule: while_queue.induct)
  case (1 v)
  show ?case
  proof (cases "speakQueueRef v")
    case Nil
    then show ?thesis by (simp add: while_queue_empty)
  next
    case (Cons t q)
    show ?thesis
    proof (cases "t = []")
      case True
      with Cons 1 show ?thesis by (simp add: while_queue.simps [of v])
    next
      case False
      with Cons show ?thesis by (simp add: while_queue_next)
    qed
  qed
qed

lemma speak_returned_fail:
  assumes "AwaitSpeak k \<in> set (loops v)" and "\<not> starts_playback out playable"
  shows "\<exists>es. speak_returned k out playable v
           = while_queue (v\<lparr>loops := remove1 (AwaitSpeak k) (loops v), console := console v @ es\<rparr>)"
proof (cases out)
  case Rejected
  then have "speak_returned k out playable v
      = while_queue (v\<lparr>loops := remove1 (AwaitSpeak k) (loops v), console := console v @ [TTSError]\<rparr>)"
    using assms(1) by (simp add: speak_returned_def log_def)
  then show ?thesis by blast
next
  case (Resolved r)
  obtain success audioData error where r: "r = Result success audioData error" by (cases r)
  show ?thesis
  proof (cases "success \<and> truthy audioData \<or> truthy error")
    case True
    then have "speak_returned k out playable v
      = while_queue (v\<lparr>loops := remove1 (AwaitSpeak k) (loops v), console := console v @ [TTSError]\<rparr>)"
      using assms Resolved r by (auto simp: speak_returned_def log_def starts_playback_def Let_def)
    then show ?thesis by blast
  next
    case False
    then have "speak_returned k out playable v
      = while_queue (v\<lparr>loops := remove1 (AwaitSpeak k) (loops v), console := console v @ []\<rparr>)"
      using assms Resolved r by (auto simp: speak_returned_def log_def starts_playback_def Let_def)
    then show ?thesis by blast
  qed
qed

lemma drain_failures:
  assumes "loops v = [AwaitSpeak k]" and "length (voiceSpeakCalls v) = Suc k"
    and "\<forall>t\<in>set (speakQueueRef v). t \<noteq> []"
    and "\<forall>i. \<not> starts_playback (outs i) (plays i)"
  shows "voiceSpeakCalls (run v (map (\<lambda>i. SpeakReturned i (outs i) (plays i))
            [k..<Suc (k + length (speakQueueRef v))])) = voiceSpeakCalls v @ speakQueueRef v
     \<and> speakQueueRef (run v (map (\<lambda>i. SpeakReturned i (outs i) (plays i))
            [k..<Suc (k + length (speakQueueRef v))])) = []
     \<and> loops (run v (map (\<lambda>i. SpeakReturned i (outs i) (plays i))
            [k..<Suc (k + length (speakQueueRef v))])) = []
     \<and> \<not> isProcessingRef (run v (map (\<lambda>i. SpeakReturned i (outs i) (plays i))
            [k..<Suc (k + length (speakQueueRef v))]))"
  using assms(1-3)
proof (induction "speakQueueRef v" arbitrary: v k)
  case Nil
  from speak_returned_fail [of k v "outs k" "plays k"] Nil.prems(1) assms(4)
  obtain es where "speak_returned k (outs k) (plays k) v
      = while_queue (v\<lparr>loops := remove1 (AwaitSpeak k) (loops v), console := console v @ es\<rparr>)"
    by auto
  then have "speak_returned k (outs k) (plays k) v
      = v\<lparr>loops := [], console := console v @ es, isProcessingRef := False, isSpeaking := False\<rparr>"
    using Nil.hyps Nil.prems(1) by (simp add: while_queue_empty)
  then show ?case using Nil.hyps [symmetric] by (simp add: run_def)
next
  case (Cons t q)
  from Cons.hyps(2) Cons.prems(3) have t: "t \<noteq> []" by (metis list.set_intros(1))
  from speak_returned_fail [of k v "outs k" "plays k"] Cons.prems(1) assms(4)
  obtain es where "speak_returned k (outs k) (plays k) v
      = while_queue (v\<lparr>loops := remove1 (AwaitSpeak k) (loops v), console := console v @ es\<rparr>)"
    by auto
  then have sr: "speak_returned k (outs k) (plays k) v
      = v\<lparr>loops := [AwaitSpeak (Suc k)], console := console v @ es, speakQueueRef := q,
           voiceSpeakCalls := voiceSpeakCalls v @ [t]\<rparr>" (is "_ = ?v1")
    using Cons.hyps(2) [symmetric] Cons.prems(1,2) t by (simp add: while_queue_next)
  have q: "q = speakQueueRef ?v1" by simp
  have ih: "voiceSpeakCalls (run ?v1 (map (\<lambda>i. SpeakReturned i (outs i) (plays i))
            [Suc k..<Suc (Suc k + length (speakQueueRef ?v1))])) = voiceSpeakCalls ?v1 @ speakQueueRef ?v1
     \<and> speakQueueRef (run ?v1 (map (\<lambda>i. SpeakReturned i (outs i) (plays i))
            [Suc k..<Suc (Suc k + length (speakQueueRef ?v1))])) = []
     \<and> loops (run ?v1 (map (\<lambda>i. SpeakReturned i (outs i) (plays i))
            [Suc k..<Suc (Suc k + length (speakQueueRef ?v1))])) = []
     \<and> \<not> isProcessingRef (run ?v1 (map (\<lambda>i. SpeakReturned i (outs i) (plays i))
            [Suc k..<Suc (Suc k + length (speakQueueRef ?v1))]))"
    using Cons.prems(2,3) Cons.hyps(2) [symmetric]
    by (intro Cons.hyps(1) [OF q]) auto
  have len: "length (speakQueueRef v) = Suc (length q)"
    using Cons.hyps(2) [symmetric] by simp
  have "[k..<Suc (k + Suc (length q))] = k # [Suc k..<Suc (k + Suc (length q))]"
    by (rule upt_conv_Cons) simp
  then have u: "[k..<Suc (k + length (speakQueueRef v))] = k # [Suc k..<Suc (Suc k + length q)]"
    by (simp only: len add_Suc_right add_Suc)
  have "run v (map (\<lambda>i. SpeakReturned i (outs i) (plays i)) [k..<Suc (k + length (speakQueueRef v))])
      = run ?v1 (map (\<lambda>i. SpeakReturned i (outs i) (plays i)) [Suc k..<Suc (Suc k + length q)])"
    by (simp only: u run_def list.map foldl.simps step.simps sr)
  with ih show ?case using Cons.hyps(2) [symmetric] by (simp del: upt_Suc)
qed

lemma speak_failure_next:
  assumes "AwaitSpeak k \<in> set (loops v)" and "speakQueueRef v = next # rest" and "next \<noteq> []"
    and "out = Rejected \<or> (\<exists>s a msg. out = Resolved (Result s a (Some msg)) \<and> msg \<noteq> [] \<and> \<not> (s \<and> truthy a))
           \<or> (\<exists>dat err. out = Resolved (Result True (Some dat) err) \<and> dat \<noteq> [] \<and> \<not> playable)"
  shows "speak_returned k out playable v
     = v\<lparr>loops := remove1 (AwaitSpeak k) (loops v) @ [AwaitSpeak (length (voiceSpeakCalls v))],
          console := console v @ [TTSError], speakQueueRef := rest,
          voiceSpeakCalls := voiceSpeakCalls v @ [next]\<rparr>"
proof -
  let ?v1 = "v\<lparr>loops := remove1 (AwaitSpeak k) (loops v), console := console v @ [TTSError]\<rparr>"
  have "speak_returned k out playable v = while_queue ?v1"
    using assms(1,4) by (auto simp: speak_returned_def log_def truthy_def Let_def)
  also have "\<dots> = ?v1\<lparr>speakQueueRef := rest,
                        voiceSpeakCalls := voiceSpeakCalls ?v1 @ [next],
                        loops := loops ?v1 @ [AwaitSpeak (length (voiceSpeakCalls ?v1))]\<rparr>"
    using assms(2,3) by (intro while_queue_next) simp_all
  finally show ?thesis by simp
qed

lemma audio_failure_next:
  assumes "AwaitAudio a \<in> set (loops v)" and "a < length (audios v)" and "audios v ! a = Playing"
    and "speakQueueRef v = next # rest" and "next \<noteq> []"
  shows "audio_error a v
     = v\<lparr>loops := remove1 (AwaitAudio a) (loops v) @ [AwaitSpeak (length (voiceSpeakCalls v))],
          audios := (audios v)[a := Failed], audioRef := None,
          console := console v @ [AudioPlaybackError], speakQueueRef := rest,
          voiceSpeakCalls := voiceSpeakCalls v @ [next]\<rparr>"
    and "play_rejected a v
     = v\<lparr>loops := remove1 (AwaitAudio a) (loops v) @ [AwaitSpeak (length (voiceSpeakCalls v))],
          audios := (audios v)[a := Failed],
          console := console v @ [FailedToPlay], speakQueueRef := rest,
          voiceSpeakCalls := voiceSpeakCalls v @ [next]\<rparr>"
proof -
  let ?v1 = "v\<lparr>loops := remove1 (AwaitAudio a) (loops v),
              audios := (audios v)[a := Failed], audioRef := None,
              console := console v @ [AudioPlaybackError]\<rparr>"
  have "audio_error a v = while_queue ?v1"
    using assms(1-3) by (simp add: audio_error_def log_def)
  also have "\<dots> = ?v1\<lparr>speakQueueRef := rest,
                        voiceSpeakCalls := voiceSpeakCalls ?v1 @ [next],
                        loops := loops ?v1 @ [AwaitSpeak (length (voiceSpeakCalls ?v1))]\<rparr>"
    using assms(4,5) by (intro while_queue_next) simp_all
  finally show "audio_error a v
     = v\<lparr>loops := remove1 (AwaitAudio a) (loops v) @ [AwaitSpeak (length (voiceSpeakCalls v))],
          audios := (audios v)[a := Failed], audioRef := None,
          console := console v @ [AudioPlaybackError], speakQueueRef := rest,
          voiceSpeakCalls := voiceSpeakCalls v @ [next]\<rparr>" by simp
  let ?v2 = "v\<lparr>loops := remove1 (AwaitAudio a) (loops v),
              audios := (audios v)[a := Failed],
              console := console v @ [FailedToPlay]\<rparr>"
  have "play_rejected a v = while_queue ?v2"
    using assms(1-3) by (simp add: play_rejected_def log_def)
  also have "\<dots> = ?v2\<lparr>speakQueueRef := rest,
                        voiceSpeakCalls := voiceSpeakCalls ?v2 @ [next],
                        loops := loops ?v2 @ [AwaitSpeak (length (voiceSpeakCalls ?v2))]\<rparr>"
    using assms(4,5) by (intro while_queue_next) simp_all
  finally show "play_rejected a v
     = v\<lparr>loops := remove1 (AwaitAudio a) (loops v) @ [AwaitSpeak (length (voiceSpeakCalls v))],
          audios := (audios v)[a := Failed],
          console := console v @ [FailedToPlay], speakQueueRef := rest,
          voiceSpeakCalls := voiceSpeakCalls v @ [next]\<rparr>" by simp
qed

text \<open>
  Claim C9. Let a loop wait for an answer of \<^verbatim>\<open>voiceSpeak\<close> or for an audio element,
  with a text next in the queue. A rejected call, an answer with an error message, audio
  data that cannot be decoded, an error of the audio element and a rejected \<^verbatim>\<open>play()\<close>
  all end in a state (no exception leaves the loop) in which the failure is on the
  console and the loop has sent the next text to \<^verbatim>\<open>voiceSpeak\<close>. And when every answer
  is one that starts no playback, every text of the queue is still sent to \<^verbatim>\<open>voiceSpeak\<close>,
  in the order of the queue, before the loop ends.
\<close>

theorem failure_never_aborts_queue:
  "(AwaitSpeak k \<in> set (loops v) \<and> speakQueueRef v = next # rest \<and> next \<noteq> []
      \<and> msg \<noteq> [] \<and> dat \<noteq> [] \<longrightarrow>
      (\<forall>out\<in>{(Rejected, playable), (Resolved (Result False audioData (Some msg)), playable),
                (Resolved (Result True (Some dat) err), False)}.
         speak_returned k (fst out) (snd out) v
         = v\<lparr>loops := remove1 (AwaitSpeak k) (loops v) @ [AwaitSpeak (length (voiceSpeakCalls v))],
              console := console v @ [TTSError], speakQueueRef := rest,
              voiceSpeakCalls := voiceSpeakCalls v @ [next]\<rparr>))
   \<and> (AwaitAudio a \<in> set (loops v) \<and> a < length (audios v) \<and> audios v ! a = Playing
      \<and> speakQueueRef v = next # rest \<and> next \<noteq> [] \<longrightarrow>
      audio_error a v
        = v\<lparr>loops := remove1 (AwaitAudio a) (loops v) @ [AwaitSpeak (length (voiceSpeakCalls v))],
             audios := (audios v)[a := Failed], audioRef := None,
             console := console v @ [AudioPlaybackError], speakQueueRef := rest,
             voiceSpeakCalls := voiceSpeakCalls v @ [next]\<rparr>
      \<and> play_rejected a v
        = v\<lparr>loops := remove1 (AwaitAudio a) (loops v) @ [AwaitSpeak (length (voiceSpeakCalls v))],
             audios := (audios v)[a := Failed],
             console := console v @ [FailedToPlay], speakQueueRef := rest,
             voiceSpeakCalls := voiceSpeakCalls v @ [next]\<rparr>)
   \<and> (loops v = [AwaitSpeak k] \<and> length (voiceSpeakCalls v) = Suc k
      \<and> (\<forall>t\<in>set (speakQueueRef v). t \<noteq> [])
      \<and> (\<forall>i. \<not> starts_playback (outs i) (plays i)) \<longrightarrow>
      (let v' = run v (map (\<lambda>i. SpeakReturned i (outs i) (plays i))
                  [k..<Suc (k + length (speakQueueRef v))])
       in voiceSpeakCalls v' = voiceSpeakCalls v @ speakQueueRef v
          \<and> speakQueueRef v' = [] \<and> loops v' = [] \<and> \<not> isProcessingRef v'))"
proof (intro conjI impI)
  assume a: "AwaitSpeak k \<in> set (loops v) \<and> speakQueueRef v = next # rest \<and> next \<noteq> []
      \<and> msg \<noteq> [] \<and> dat \<noteq> []"
  show "\<forall>out\<in>{(Rejected, playable), (Resolved (Result False audioData (Some msg)), playable),
                (Resolved (Result True (Some dat) err), False)}.
         speak_returned k (fst out) (snd out) v
         = v\<lparr>loops := remove1 (AwaitSpeak k) (loops v) @ [AwaitSpeak (length (voiceSpeakCalls v))],
              console := console v @ [TTSError], speakQueueRef := rest,
              voiceSpeakCalls := voiceSpeakCalls v @ [next]\<rparr>"
    using a by (auto intro!: speak_failure_next)
next
  assume a: "AwaitAudio a \<in> set (loops v) \<and> a < length (audios v) \<and> audios v ! a = Playing
      \<and> speakQueueRef v = next # rest \<and> next \<noteq> []"
  then show "audio_error a v
        = v\<lparr>loops := remove1 (AwaitAudio a) (loops v) @ [AwaitSpeak (length (voiceSpeakCalls v))],
             audios := (audios v)[a := Failed], audioRef := None,
             console := console v @ [AudioPlaybackError], speakQueueRef := rest,
             voiceSpeakCalls := voiceSpeakCalls v @ [next]\<rparr>"
    by (intro audio_failure_next(1)) simp_all
  from a show "play_rejected a v
        = v\<lparr>loops := remove1 (AwaitAudio a) (loops v) @ [AwaitSpeak (length (voiceSpeakCalls v))],
             audios := (audios v)[a := Failed],
             console := console v @ [FailedToPlay], speakQueueRef := rest,
             voiceSpeakCalls := voiceSpeakCalls v @ [next]\<rparr>"
    by (intro audio_failure_next(2)) simp_all
next
  assume a: "loops v = [AwaitSpeak k] \<and> length (voiceSpeakCalls v) = Suc k
      \<and> (\<forall>t\<in>set (speakQueueRef v). t \<noteq> [])
      \<and> (\<forall>i. \<not> starts_playback (outs i) (plays i))"
  then show "let v' = run v (map (\<lambda>i. SpeakReturned i (outs i) (plays i))
                  [k..<Suc (k + length (speakQueueRef v))])
       in voiceSpeakCalls v' = voiceSpeakCalls v @ speakQueueRef v
          \<and> speakQueueRef v' = [] \<and> loops v' = [] \<and> \<not> isProcessingRef v'"
    unfolding Let_def by (intro drain_failures) simp_all
qed

text \<open>A loop that waits for the first of three texts: a rejected call, a failing audio
  element, and three rejected calls in a row.\<close>

theorem failure_never_aborts_queue_witness:
  "speak_returned 0 Rejected True
     ((provider True)\<lparr>isProcessingRef := True, isSpeaking := True,
        voiceSpeakCalls := [ascii ''First''], loops := [AwaitSpeak 0],
        speakQueueRef := [ascii ''Second'', ascii ''Third'']\<rparr>)
   = (provider True)\<lparr>isProcessingRef := True, isSpeaking := True,
        voiceSpeakCalls := [ascii ''First'', ascii ''Second''], loops := [AwaitSpeak 1],
        speakQueueRef := [ascii ''Third''], console := [TTSError]\<rparr>
   \<and> audio_error 0
     ((provider True)\<lparr>isProcessingRef := True, isSpeaking := True,
        voiceSpeakCalls := [ascii ''First''], loops := [AwaitAudio 0], audios := [Playing],
        audioRef := Some 0, speakQueueRef := [ascii ''Second'', ascii ''Third'']\<rparr>)
   = (provider True)\<lparr>isProcessingRef := True, isSpeaking := True,
        voiceSpeakCalls := [ascii ''First'', ascii ''Second''], loops := [AwaitSpeak 1],
        audios := [Failed], audioRef := None,
        speakQueueRef := [ascii ''Third''], console := [AudioPlaybackError]\<rparr>
   \<and> voiceSpeakCalls (run
     ((provider True)\<lparr>isProcessingRef := True, isSpeaking := True,
        voiceSpeakCalls := [ascii ''First''], loops := [AwaitSpeak 0],
        speakQueueRef := [ascii ''Second'', ascii ''Third'']\<rparr>)
     [SpeakReturned 0 Rejected True, SpeakReturned 1 Rejected True, SpeakReturned 2 Rejected True])
   = [ascii ''First'', ascii ''Second'', ascii ''Third'']"
proof -
  let ?v0 = "(provider True)\<lparr>isProcessingRef := True, isSpeaking := True,
        voiceSpeakCalls := [ascii ''First''], loops := [AwaitSpeak 0],
        speakQueueRef := [ascii ''Second'', ascii ''Third'']\<rparr>"
  let ?v1 = "(provider True)\<lparr>isProcessingRef := True, isSpeaking := True,
        voiceSpeakCalls := [ascii ''First''], loops := [AwaitAudio 0], audios := [Playing],
        audioRef := Some 0, speakQueueRef := [ascii ''Second'', ascii ''Third'']\<rparr>"
  have "\<forall>out\<in>{(Rejected, True), (Resolved (Result False None (Some [1])), True),
                (Resolved (Result True (Some [1]) None), False)}.
         speak_returned 0 (fst out) (snd out) ?v0
         = ?v0\<lparr>loops := remove1 (AwaitSpeak 0) (loops ?v0) @ [AwaitSpeak (length (voiceSpeakCalls ?v0))],
              console := console ?v0 @ [TTSError], speakQueueRef := [ascii ''Third''],
              voiceSpeakCalls := voiceSpeakCalls ?v0 @ [ascii ''Second'']\<rparr>"
    by (rule failure_never_aborts_queue [THEN conjunct1, THEN mp]) (simp add: provider_refs)
  then have 1: "speak_returned 0 Rejected True ?v0
      = (provider True)\<lparr>isProcessingRef := True, isSpeaking := True,
        voiceSpeakCalls := [ascii ''First'', ascii ''Second''], loops := [AwaitSpeak 1],
        speakQueueRef := [ascii ''Third''], console := [TTSError]\<rparr>"
    by (simp add: provider_refs)
  have "audio_error 0 ?v1
        = ?v1\<lparr>loops := remove1 (AwaitAudio 0) (loops ?v1) @ [AwaitSpeak (length (voiceSpeakCalls ?v1))],
             audios := (audios ?v1)[0 := Failed], audioRef := None,
             console := console ?v1 @ [AudioPlaybackError], speakQueueRef := [ascii ''Third''],
             voiceSpeakCalls := voiceSpeakCalls ?v1 @ [ascii ''Second'']\<rparr>"
    by (rule failure_never_aborts_queue [THEN conjunct2, THEN conjunct1, THEN mp, THEN conjunct1])
      (simp add: provider_refs)
  then have 2: "audio_error 0 ?v1
      = (provider True)\<lparr>isProcessingRef := True, isSpeaking := True,
        voiceSpeakCalls := [ascii ''First'', ascii ''Second''], loops := [AwaitSpeak 1],
        audios := [Failed], audioRef := None,
        speakQueueRef := [ascii ''Third''], console := [AudioPlaybackError]\<rparr>"
    by (simp add: provider_refs)
  have "let v' = run ?v0 (map (\<lambda>i. SpeakReturned i ((\<lambda>_. Rejected) i) ((\<lambda>_. True) i))
                  [0..<Suc (0 + length (speakQueueRef ?v0))])
       in voiceSpeakCalls v' = voiceSpeakCalls ?v0 @ speakQueueRef ?v0
          \<and> speakQueueRef v' = [] \<and> loops v' = [] \<and> \<not> isProcessingRef v'"
    by (rule failure_never_aborts_queue [THEN conjunct2, THEN conjunct2, THEN mp])
      (simp add: provider_refs starts_playback_def)
  moreover have "[0..<Suc (0 + length (speakQueueRef ?v0))] = [0, 1, 2]"
    by (simp add: upt_rec)
  ultimately have 3: "voiceSpeakCalls (run ?v0
     [SpeakReturned 0 Rejected True, SpeakReturned 1 Rejected True, SpeakReturned 2 Rejected True])
   = [ascii ''First'', ascii ''Second'', ascii ''Third'']"
    by (simp add: Let_def provider_refs numeral_2_eq_2)
  from 1 2 3 show ?thesis by blast
qed

lemma clean_words:
  "cleanText (ascii ''Hello world'') = ascii ''Hello world''"
  "cleanText (ascii ''Alpha'') = ascii ''Alpha''"
  "cleanText (ascii ''Bravo'') = ascii ''Bravo''"
  "cleanText (ascii ''Charlie'') = ascii ''Charlie''"
  by (simp_all add: eval_text)

text \<open>What \<^verbatim>\<open>stopSpeaking\<close> resets, and what it leaves: the suspended invocations of
  \<^verbatim>\<open>processQueue\<close> stay where they are.\<close>

lemma stopSpeaking_resets:
  "speakQueueRef (stopSpeaking v) = [] \<and> audioRef (stopSpeaking v) = None
   \<and> \<not> isProcessingRef (stopSpeaking v) \<and> \<not> isSpeaking (stopSpeaking v)
   \<and> loops (stopSpeaking v) = loops v
   \<and> stopSpeaking (stopSpeaking v)
       = (stopSpeaking v)\<lparr>voiceStopSpeakingCalls := voiceStopSpeakingCalls v + 2\<rparr>"
  by (simp add: stopSpeaking_def)

lemmas eval_step = step.simps speakText_idle speakText_busy clean_words stopSpeaking_def
  speak_returned_def truthy_def log_def pause_def while_queue_next while_queue_empty

text \<open>
  Claim C5, at two runs from the provider with the voice output switched on. Stop while the
  first call of \<^verbatim>\<open>voiceSpeak\<close> is in flight, and the call then succeeds: the loop builds
  the audio element and plays it, after the stop. Stop during the playback: the element
  is paused and the queue is empty, and the invocation of \<^verbatim>\<open>processQueue\<close> still waits
  for the element.
\<close>

theorem stop_leaves_loop_suspended:
  "run (provider True)
     [SpeakText (ascii ''Hello world''), StopSpeaking,
      SpeakReturned 0 (Resolved (Result True (Some (ascii ''UklGRg'')) None)) True]
   = \<lparr>speakQueueRef = [], isProcessingRef = False, isSpeaking = False, audioRef = Some 0,
      ctxVoiceOutputEnabledRef = True, loops = [AwaitAudio 0],
      voiceSpeakCalls = [ascii ''Hello world''], audios = [Playing], console = [],
      voiceStopSpeakingCalls = 2\<rparr>
   \<and> run (provider True)
     [SpeakText (ascii ''Hello world''),
      SpeakReturned 0 (Resolved (Result True (Some (ascii ''UklGRg'')) None)) True, StopSpeaking]
   = \<lparr>speakQueueRef = [], isProcessingRef = False, isSpeaking = False, audioRef = None,
      ctxVoiceOutputEnabledRef = True, loops = [AwaitAudio 0],
      voiceSpeakCalls = [ascii ''Hello world''], audios = [Paused], console = [],
      voiceStopSpeakingCalls = 2\<rparr>"
proof -
  let ?v1 = "\<lparr>speakQueueRef = [], isProcessingRef = True, isSpeaking = True, audioRef = None,
      ctxVoiceOutputEnabledRef = True, loops = [AwaitSpeak 0],
      voiceSpeakCalls = [ascii ''Hello world''], audios = [], console = [],
      voiceStopSpeakingCalls = 1\<rparr>"
  let ?v2 = "\<lparr>speakQueueRef = [], isProcessingRef = False, isSpeaking = False, audioRef = None,
      ctxVoiceOutputEnabledRef = True, loops = [AwaitSpeak 0],
      voiceSpeakCalls = [ascii ''Hello world''], audios = [], console = [],
      voiceStopSpeakingCalls = 2\<rparr>"
  let ?v3 = "\<lparr>speakQueueRef = [], isProcessingRef = False, isSpeaking = False, audioRef = Some 0,
      ctxVoiceOutputEnabledRef = True, loops = [AwaitAudio 0],
      voiceSpeakCalls = [ascii ''Hello world''], audios = [Playing], console = [],
      voiceStopSpeakingCalls = 2\<rparr>"
  let ?w2 = "\<lparr>speakQueueRef = [], isProcessingRef = True, isSpeaking = True, audioRef = Some 0,
      ctxVoiceOutputEnabledRef = True, loops = [AwaitAudio 0],
      voiceSpeakCalls = [ascii ''Hello world''], audios = [Playing], console = [],
      voiceStopSpeakingCalls = 1\<rparr>"
  let ?w3 = "\<lparr>speakQueueRef = [], isProcessingRef = False, isSpeaking = False, audioRef = None,
      ctxVoiceOutputEnabledRef = True, loops = [AwaitAudio 0],
      voiceSpeakCalls = [ascii ''Hello world''], audios = [Paused], console = [],
      voiceStopSpeakingCalls = 2\<rparr>"
  let ?ok = "SpeakReturned 0 (Resolved (Result True (Some (ascii ''UklGRg'')) None)) True"
  have 1: "step (provider True) (SpeakText (ascii ''Hello world'')) = ?v1"
    by (simp add: eval_step provider_refs)
  have 2: "step ?v1 StopSpeaking = ?v2"
    by (simp add: eval_step)
  have 3: "step ?v2 ?ok = ?v3"
    by (simp add: eval_step)
  have 4: "step ?v1 ?ok = ?w2"
    by (simp add: eval_step)
  have 5: "step ?w2 StopSpeaking = ?w3"
    by (simp add: eval_step)
  have "run (provider True) [SpeakText (ascii ''Hello world''), StopSpeaking, ?ok] = ?v3"
    by (simp only: run_def foldl.simps 1 2 3)
  moreover have "run (provider True) [SpeakText (ascii ''Hello world''), ?ok, StopSpeaking] = ?w3"
    by (simp only: run_def foldl.simps 1 4 5)
  ultimately show ?thesis by (rule conjI)
qed

text \<open>
  Claim C8, at a run with a stop in it. The stop comes while the first call is in flight
  and resets the processing flag, so the next \<^verbatim>\<open>speakText\<close> starts a second invocation
  of the loop; when the first call fails, the first invocation goes on with the text that
  was queued for the second. In the end two invocations wait, each for an audio element
  of its own, and both elements are playing.
\<close>

theorem stale_loop_overlaps:
  "run (provider True)
     [SpeakText (ascii ''Alpha''), StopSpeaking,
      SpeakText (ascii ''Bravo''), SpeakText (ascii ''Charlie''),
      SpeakReturned 0 (Resolved (Result False None (Some (ascii ''Piper exited with code null'')))) True,
      SpeakReturned 1 (Resolved (Result True (Some (ascii ''UklGRg'')) None)) True,
      SpeakReturned 2 (Resolved (Result True (Some (ascii ''UklGRg'')) None)) True]
   = \<lparr>speakQueueRef = [], isProcessingRef = True, isSpeaking = True, audioRef = Some 1,
      ctxVoiceOutputEnabledRef = True, loops = [AwaitAudio 0, AwaitAudio 1],
      voiceSpeakCalls = [ascii ''Alpha'', ascii ''Bravo'', ascii ''Charlie''],
      audios = [Playing, Playing], console = [TTSError], voiceStopSpeakingCalls = 2\<rparr>"
proof -
  let ?v1 = "\<lparr>speakQueueRef = [], isProcessingRef = True, isSpeaking = True, audioRef = None,
      ctxVoiceOutputEnabledRef = True, loops = [AwaitSpeak 0],
      voiceSpeakCalls = [ascii ''Alpha''], audios = [], console = [],
      voiceStopSpeakingCalls = 1\<rparr>"
  let ?v2 = "\<lparr>speakQueueRef = [], isProcessingRef = False, isSpeaking = False, audioRef = None,
      ctxVoiceOutputEnabledRef = True, loops = [AwaitSpeak 0],
      voiceSpeakCalls = [ascii ''Alpha''], audios = [], console = [],
      voiceStopSpeakingCalls = 2\<rparr>"
  let ?v3 = "\<lparr>speakQueueRef = [], isProcessingRef = True, isSpeaking = True, audioRef = None,
      ctxVoiceOutputEnabledRef = True, loops = [AwaitSpeak 0, AwaitSpeak 1],
      voiceSpeakCalls = [ascii ''Alpha'', ascii ''Bravo''], audios = [], console = [],
      voiceStopSpeakingCalls = 2\<rparr>"
  let ?v4 = "\<lparr>speakQueueRef = [ascii ''Charlie''], isProcessingRef = True, isSpeaking = True,
      audioRef = None,
      ctxVoiceOutputEnabledRef = True, loops = [AwaitSpeak 0, AwaitSpeak 1],
      voiceSpeakCalls = [ascii ''Alpha'', ascii ''Bravo''], audios = [], console = [],
      voiceStopSpeakingCalls = 2\<rparr>"
  let ?v5 = "\<lparr>speakQueueRef = [], isProcessingRef = True, isSpeaking = True, audioRef = None,
      ctxVoiceOutputEnabledRef = True, loops = [AwaitSpeak 1, AwaitSpeak 2],
      voiceSpeakCalls = [ascii ''Alpha'', ascii ''Bravo'', ascii ''Charlie''], audios = [],
      console = [TTSError], voiceStopSpeakingCalls = 2\<rparr>"
  let ?v6 = "\<lparr>speakQueueRef = [], isProcessingRef = True, isSpeaking = True, audioRef = Some 0,
      ctxVoiceOutputEnabledRef = True, loops = [AwaitSpeak 2, AwaitAudio 0],
      voiceSpeakCalls = [ascii ''Alpha'', ascii ''Bravo'', ascii ''Charlie''],
      audios = [Playing], console = [TTSError], voiceStopSpeakingCalls = 2\<rparr>"
  let ?v7 = "\<lparr>speakQueueRef = [], isProcessingRef = True, isSpeaking = True, audioRef = Some 1,
      ctxVoiceOutputEnabledRef = True, loops = [AwaitAudio 0, AwaitAudio 1],
      voiceSpeakCalls = [ascii ''Alpha'', ascii ''Bravo'', ascii ''Charlie''],
      audios = [Playing, Playing], console = [TTSError], voiceStopSpeakingCalls = 2\<rparr>"
  let ?ko = "SpeakReturned 0 (Resolved (Result False None (Some (ascii ''Piper exited with code null'')))) True"
  let ?ok1 = "SpeakReturned 1 (Resolved (Result True (Some (ascii ''UklGRg'')) None)) True"
  let ?ok2 = "SpeakReturned 2 (Resolved (Result True (Some (ascii ''UklGRg'')) None)) True"
  have 1: "step (provider True) (SpeakText (ascii ''Alpha'')) = ?v1"
    by (simp add: eval_step provider_refs)
  have 2: "step ?v1 StopSpeaking = ?v2"
    by (simp add: eval_step)
  have 3: "step ?v2 (SpeakText (ascii ''Bravo'')) = ?v3"
    by (simp add: eval_step)
  have 4: "step ?v3 (SpeakText (ascii ''Charlie'')) = ?v4"
    by (simp add: eval_step)
  have 5: "step ?v4 ?ko = ?v5"
    by (simp add: eval_step numeral_2_eq_2)
  have 6: "step ?v5 ?ok1 = ?v6"
    by (simp add: eval_step)
  have 7: "step ?v6 ?ok2 = ?v7"
    by (simp add: eval_step)
  show ?thesis
    by (simp only: run_def foldl.simps 1 2 3 4 5 6 7)
qed

section \<open>The silent mode\<close>

lemma run_match_None: "run_match P (c # cs) = None \<longleftrightarrow> \<not> P c"
  by (auto simp: run_match_def split: list.splits if_splits)

lemma run_match_Some:
  "run_match P (c # cs) = Some n \<Longrightarrow> P c \<and> drop (n - 1) cs = dropWhile P cs"
proof -
  assume a: "run_match P (c # cs) = Some n"
  then have p: "P c" using run_match_None [of P c cs] by auto
  with a have "n = Suc (length (takeWhile P cs))"
    by (auto simp: run_match_def split: list.splits)
  then show ?thesis using p by (simp add: dropWhile_eq_drop)
qed

lemma replace_runs_simps:
  "replace_all (run_match P) [r] [] = []"
  "\<not> P c \<Longrightarrow> replace_all (run_match P) [r] (c # cs) = c # replace_all (run_match P) [r] cs"
  "P c \<Longrightarrow> replace_all (run_match P) [r] (c # cs) = r # replace_all (run_match P) [r] (dropWhile P cs)"
proof -
  show "replace_all (run_match P) [r] [] = []" by simp
  show "\<not> P c \<Longrightarrow> replace_all (run_match P) [r] (c # cs) = c # replace_all (run_match P) [r] cs"
    using run_match_None [of P c cs] by simp
  assume p: "P c"
  then obtain n where n: "run_match P (c # cs) = Some n"
    using run_match_None [of P c cs] by (cases "run_match P (c # cs)") auto
  from run_match_Some [OF n] n
  show "replace_all (run_match P) [r] (c # cs) = r # replace_all (run_match P) [r] (dropWhile P cs)"
    by simp
qed

lemma replace_runs_keeps:
  assumes "\<And>c. P c \<Longrightarrow> Q c" and "Q r"
  shows "filter (\<lambda>c. \<not> Q c) (replace_all (run_match P) [r] s) = filter (\<lambda>c. \<not> Q c) s"
proof (induction s rule: length_induct)
  case (1 s)
  show ?case
  proof (cases s)
    case Nil
    then show ?thesis by simp
  next
    case (Cons c cs)
    show ?thesis
    proof (cases "P c")
      case False
      with 1 Cons show ?thesis by (simp add: replace_runs_simps del: replace_all.simps)
    next
      case True
      have "length (dropWhile P cs) < length s"
        using Cons length_dropWhile_le [of P cs] by simp
      with 1 have "filter (\<lambda>c. \<not> Q c) (replace_all (run_match P) [r] (dropWhile P cs))
          = filter (\<lambda>c. \<not> Q c) (dropWhile P cs)" by blast
      moreover have "filter (\<lambda>c. \<not> Q c) (dropWhile P cs) = filter (\<lambda>c. \<not> Q c) cs"
      proof -
        have "filter (\<lambda>c. \<not> Q c) (takeWhile P cs) = []"
          using assms(1) by (auto simp: filter_empty_conv dest: set_takeWhileD)
        then have "filter (\<lambda>c. \<not> Q c) (takeWhile P cs @ dropWhile P cs)
            = filter (\<lambda>c. \<not> Q c) (dropWhile P cs)"
          by (simp only: filter_append) simp
        then show ?thesis by simp
      qed
      ultimately show ?thesis
        using True Cons assms by (simp add: replace_runs_simps del: replace_all.simps)
    qed
  qed
qed

lemma replace_runs_last:
  assumes "\<And>c. P c \<Longrightarrow> Q c" and "Q r"
  shows "s \<noteq> [] \<Longrightarrow> \<not> Q (last s) \<Longrightarrow>
     replace_all (run_match P) [r] s \<noteq> [] \<and> last (replace_all (run_match P) [r] s) = last s"
proof (induction s rule: length_induct)
  case (1 s)
  from 1(2) obtain c cs where Cons: "s = c # cs" by (cases s) auto
  show ?case
  proof (cases "P c")
    case False
    show ?thesis
    proof (cases "cs = []")
      case True
      with False Cons show ?thesis by (simp add: replace_runs_simps del: replace_all.simps)
    next
      case ne: False
      with 1 Cons have "replace_all (run_match P) [r] cs \<noteq> [] \<and>
          last (replace_all (run_match P) [r] cs) = last cs" by simp
      with False Cons ne show ?thesis by (simp add: replace_runs_simps del: replace_all.simps)
    qed
  next
    case True
    let ?d = "dropWhile P cs"
    have nl: "\<not> P (last s)" using assms(1) 1(3) by blast
    have "?d \<noteq> []"
    proof
      assume "?d = []"
      then have "\<forall>x\<in>set cs. P x" by (simp add: dropWhile_eq_Nil_conv)
      with True Cons have "\<forall>x\<in>set s. P x" by simp
      with 1(2) have "P (last s)" using last_in_set by blast
      with nl show False by simp
    qed
    moreover have "last ?d = last s"
    proof -
      have "cs = takeWhile P cs @ ?d" by simp
      then have "last cs = last ?d" using \<open>?d \<noteq> []\<close> by (metis last_appendR)
      moreover have "cs \<noteq> []" using \<open>?d \<noteq> []\<close> by auto
      ultimately show ?thesis using Cons by simp
    qed
    moreover have "length ?d < length s"
      using Cons length_dropWhile_le [of P cs] by simp
    ultimately have "replace_all (run_match P) [r] ?d \<noteq> [] \<and>
        last (replace_all (run_match P) [r] ?d) = last s"
      using 1(1,3) by metis
    with True Cons show ?thesis by (simp add: replace_runs_simps del: replace_all.simps)
  qed
qed

lemma replace_runs_mark:
  "\<exists>c\<in>set s. P c \<Longrightarrow> r \<in> set (replace_all (run_match P) [r] s)"
proof (induction s)
  case Nil
  then show ?case by simp
next
  case (Cons c cs)
  show ?case
  proof (cases "P c")
    case True
    then show ?thesis by (simp add: replace_runs_simps del: replace_all.simps)
  next
    case False
    with Cons show ?thesis by (auto simp: replace_runs_simps simp del: replace_all.simps)
  qed
qed

lemma replace_runs_member:
  "c \<in> set s \<Longrightarrow> \<not> P c \<Longrightarrow> c \<in> set (replace_all (run_match P) [r] s)"
proof -
  assume a: "c \<in> set s" "\<not> P c"
  show ?thesis
    using a
  proof (induction s rule: length_induct)
    case (1 s)
    from 1(2) obtain x xs where Cons: "s = x # xs" by (cases s) auto
    show ?case
    proof (cases "P x")
      case False
      with 1 Cons show ?thesis by (auto simp: replace_runs_simps simp del: replace_all.simps)
    next
      case True
      with 1(2,3) Cons have "c \<in> set xs" by auto
      moreover have "set xs = set (takeWhile P xs) \<union> set (dropWhile P xs)"
        by (metis set_append takeWhile_dropWhile_id)
      moreover have "c \<notin> set (takeWhile P xs)"
        using 1(3) by (auto dest: set_takeWhileD)
      ultimately have "c \<in> set (dropWhile P xs)" by blast
      moreover have "length (dropWhile P xs) < length s"
        using Cons length_dropWhile_le [of P xs] by simp
      ultimately have "c \<in> set (replace_all (run_match P) [r] (dropWhile P xs))"
        using 1(1,3) by blast
      with True Cons show ?thesis by (simp add: replace_runs_simps del: replace_all.simps)
    qed
  qed
qed

lemma replace_runs_hd:
  "s \<noteq> [] \<Longrightarrow> \<not> P (hd s) \<Longrightarrow>
     replace_all (run_match P) [r] s \<noteq> [] \<and> hd (replace_all (run_match P) [r] s) = hd s"
  by (cases s) (simp_all add: replace_runs_simps del: replace_all.simps)

lemma trim_id: "s \<noteq> [] \<Longrightarrow> \<not> is_space (hd s) \<Longrightarrow> \<not> is_space (last s) \<Longrightarrow> trim s = s"
proof -
  assume a: "s \<noteq> []" "\<not> is_space (hd s)" "\<not> is_space (last s)"
  then have "dropWhile is_space s = s" by (cases s) auto
  moreover have "dropWhile is_space (rev s) = rev s"
    using a by (cases "rev s") (auto simp: hd_rev)
  ultimately show ?thesis by (simp add: trim_def)
qed

lemma trim_ends:
  "trim s \<noteq> [] \<Longrightarrow> \<not> is_space (hd (trim s)) \<and> \<not> is_space (last (trim s))"
proof -
  assume a: "trim s \<noteq> []"
  let ?d = "dropWhile is_space s"
  let ?e = "dropWhile is_space (rev ?d)"
  have t: "trim s = rev ?e" by (simp add: trim_def)
  with a have e: "?e \<noteq> []" by simp
  then have "\<not> is_space (hd ?e)" by (rule hd_dropWhile)
  then have l: "\<not> is_space (last (trim s))" using t e by (simp add: last_rev)
  have d: "?d \<noteq> []"
  proof
    assume n: "?d = []"
    have "?e = dropWhile is_space (rev [])" by (simp only: n)
    with e show False by simp
  qed
  then have hd: "\<not> is_space (hd ?d)" by (rule hd_dropWhile)
  have "rev ?d = takeWhile is_space (rev ?d) @ ?e" by simp
  then have "?d = rev ?e @ rev (takeWhile is_space (rev ?d))"
    by (metis rev_append rev_rev_ident)
  then have "hd ?d = hd (rev ?e)" using e by (metis hd_append2 rev_is_Nil_conv)
  with hd t l show ?thesis by simp
qed

lemma csi_none: "91 \<notin> set s \<Longrightarrow> replace_all csi_match [] s = s"
proof (induction s)
  case Nil
  then show ?case by simp
next
  case (Cons c cs)
  then have "csi_match (c # cs) = None"
    by (cases cs) (auto simp: csi_match_def)
  with Cons show ?case by simp
qed

lemma three_with_space:
  assumes "s \<noteq> []" and "\<not> is_space (hd s)" and "\<not> is_space (last s)" and "32 \<in> set s"
  shows "3 \<le> length s"
proof -
  have sp: "is_space 32" by (simp add: is_space_def)
  from assms(1) obtain x w where s: "s = x # w" by (cases s) auto
  with assms(2,4) sp have "32 \<in> set w" by auto
  then have "w \<noteq> []" by auto
  then obtain w' y where w: "w = w' @ [y]" by (cases w rule: rev_cases) auto
  with s assms(3) sp have "y \<noteq> 32" by auto
  with \<open>32 \<in> set w\<close> w have "w' \<noteq> []" by auto
  with s w show ?thesis by (cases w') auto
qed

lemma prose_clean_length:
  assumes "looksLikeProse c" and "\<not> is_space (last c)"
  shows "3 \<le> length (cleanText c)"
proof -
  from assms(1) have len: "5 < length c" and al: "is_alpha (hd c)" and np: "\<not> list_ex is_code_punct c"
    by (auto simp: looksLikeProse_def looksLikeCode_def split: list.splits)
  from len have ne: "c \<noteq> []" by auto
  from al have h: "\<not> is_space (hd c)" by (auto simp: is_alpha_def is_space_def)
  have "is_code_punct 91" by (simp add: is_code_punct_def)
  with np have "91 \<notin> set c" by (auto simp: list_ex_iff)
  then have csi: "replace_all csi_match [] c = c" by (rule csi_none)
  let ?s1 = "replace_all (run_match is_crlf) [32] c"
  let ?s2 = "replace_all (run_match is_space) [32] ?s1"
  have cs: "\<And>x. is_crlf x \<Longrightarrow> is_space x" by (auto simp: is_crlf_def is_space_def)
  have sp: "is_space 32" by (simp add: is_space_def)
  have h1: "?s1 \<noteq> [] \<and> hd ?s1 = hd c"
    using ne h cs by (intro replace_runs_hd) auto
  have l1: "?s1 \<noteq> [] \<and> last ?s1 = last c"
    using cs sp ne assms(2) by (rule replace_runs_last)
  have h2: "?s2 \<noteq> [] \<and> hd ?s2 = hd c"
    using replace_runs_hd [of ?s1 is_space 32] h1 h by simp
  have l2: "?s2 \<noteq> [] \<and> last ?s2 = last c"
    using replace_runs_last [of is_space is_space 32 ?s1] sp l1 assms(2) by simp
  have ct: "cleanText c = ?s2"
    using h2 l2 h assms(2) by (simp add: cleanText_def csi trim_id)
  have f1: "filter (\<lambda>x. \<not> is_space x) ?s1 = filter (\<lambda>x. \<not> is_space x) c"
    using cs sp by (rule replace_runs_keeps)
  have f2: "filter (\<lambda>x. \<not> is_space x) ?s2 = filter (\<lambda>x. \<not> is_space x) ?s1"
    using sp by (intro replace_runs_keeps) auto
  show ?thesis
  proof (cases "\<exists>x\<in>set c. is_space x")
    case False
    then have "filter (\<lambda>x. \<not> is_space x) c = c" by (simp add: filter_id_conv)
    with f1 f2 have "filter (\<lambda>x. \<not> is_space x) ?s2 = c" by simp
    then have "length c \<le> length ?s2" by (metis length_filter_le)
    with len ct show ?thesis by simp
  next
    case True
    then obtain x where x: "x \<in> set c" "is_space x" by blast
    have "\<exists>y\<in>set ?s1. is_space y"
    proof (cases "is_crlf x")
      case True
      with x(1) have "32 \<in> set ?s1" by (intro replace_runs_mark) blast
      with sp show ?thesis by blast
    next
      case False
      with x(1) have "x \<in> set ?s1" by (intro replace_runs_member)
      with x(2) show ?thesis by blast
    qed
    then have "32 \<in> set ?s2" by (rule replace_runs_mark)
    with h2 l2 h assms(2) have "3 \<le> length ?s2" by (intro three_with_space) auto
    with ct show ?thesis by simp
  qed
qed

lemma trim_prose_length: "looksLikeProse (trim g) \<Longrightarrow> 3 \<le> length (cleanText (trim g))"
proof -
  assume p: "looksLikeProse (trim g)"
  then have "trim g \<noteq> []" by (auto simp: looksLikeProse_def)
  then have "\<not> is_space (last (trim g))" using trim_ends by blast
  with p show ?thesis by (rule prose_clean_length)
qed

lemma replay_fold_set:
  "set (foldl (\<lambda>sp g. let content = trim g in if length content > 3 then set_add content sp else sp) sp gs)
     = set sp \<union> {trim g |g. g \<in> set gs \<and> 3 < length (trim g)}"
  by (induction gs arbitrary: sp) (auto simp: Let_def set_add_def)

lemma replay_set:
  "set (foldl replay_chunk sp chunks)
     = set sp \<union> {trim g |g chunk. chunk \<in> set chunks
                    \<and> g \<in> set (fst (extract_tags (stripAnsi chunk))) \<and> 3 < length (trim g)}"
proof (induction chunks arbitrary: sp)
  case Nil
  then show ?case by simp
next
  case (Cons chunk chunks)
  have "set (replay_chunk sp chunk)
      = set sp \<union> {trim g |g. g \<in> set (fst (extract_tags (stripAnsi chunk))) \<and> 3 < length (trim g)}"
    unfolding replay_chunk_def by (rule replay_fold_set)
  with Cons [of "replay_chunk sp chunk"] show ?case by auto
qed

lemma tag_loop_result:
  "\<exists>new. tag_loop t buffer =
           (t\<lparr>spokenContentRef := spokenContentRef t @ new\<rparr>, if gates_open t then new else [])
     \<and> distinct new
     \<and> set new = {c \<in> trim ` set (fst (extract_tags buffer)). looksLikeProse c} - set (spokenContentRef t)"
  unfolding tag_loop_def
  using foldl_process_match [of t "[]" "fst (extract_tags buffer)"] by (simp only: append_Nil)

lemma onPtyData_silent: "\<not> gates_open t \<Longrightarrow> snd (onPtyData t payload) = []"
proof -
  assume g: "\<not> gates_open t"
  obtain new where "tag_loop t (ttsBufferRef t @ stripAnsi payload) =
           (t\<lparr>spokenContentRef := spokenContentRef t @ new\<rparr>, if gates_open t then new else [])"
    using tag_loop_result by blast
  with g show ?thesis by (simp add: onPtyData_def Let_def)
qed

lemma onPtyData_refs:
  "silentModeRef (fst (onPtyData t payload)) = silentModeRef t"
  "voiceOutputEnabledRef (fst (onPtyData t payload)) = voiceOutputEnabledRef t"
  "isActiveRef (fst (onPtyData t payload)) = isActiveRef t"
proof -
  obtain new where "tag_loop t (ttsBufferRef t @ stripAnsi payload) =
           (t\<lparr>spokenContentRef := spokenContentRef t @ new\<rparr>, if gates_open t then new else [])"
    using tag_loop_result by blast
  then show "silentModeRef (fst (onPtyData t payload)) = silentModeRef t"
    "voiceOutputEnabledRef (fst (onPtyData t payload)) = voiceOutputEnabledRef t"
    "isActiveRef (fst (onPtyData t payload)) = isActiveRef t"
    by (simp_all add: onPtyData_def Let_def)
qed

lemma feed_refs: "silentModeRef (fst (feed t chunks)) = silentModeRef t"
  by (induction chunks arbitrary: t) (simp_all add: onPtyData_refs split: prod.splits, metis fst_conv onPtyData_refs(1))

lemma feed_silent: "silentModeRef t \<Longrightarrow> snd (feed t chunks) = []"
proof (induction chunks arbitrary: t)
  case Nil
  then show ?case by simp
next
  case (Cons p chunks)
  from Cons.prems have "snd (onPtyData t p) = []"
    by (intro onPtyData_silent) (simp add: gates_open_def)
  moreover have "snd (feed (fst (onPtyData t p)) chunks) = []"
    using Cons.prems by (intro Cons.IH) (simp add: onPtyData_refs)
  ultimately show ?case by (simp split: prod.splits) (metis fst_conv snd_conv)
qed

lemma voice_silent:
  "silentModeRef t \<Longrightarrow> snd (foldl onPtyData_voice (t, v) chunks) = v"
proof (induction chunks arbitrary: t)
  case Nil
  then show ?case by simp
next
  case (Cons p chunks)
  from Cons.prems have c: "snd (onPtyData t p) = []"
    by (intro onPtyData_silent) (simp add: gates_open_def)
  then have "onPtyData_voice (t, v) p = (fst (onPtyData t p), v)"
    by (cases "onPtyData t p") (simp add: onPtyData_voice_def)
  moreover have "snd (foldl onPtyData_voice (fst (onPtyData t p), v) chunks) = v"
    using Cons.prems by (intro Cons.IH) (simp add: onPtyData_refs)
  ultimately show ?case by simp
qed

lemma qualifying_recorded:
  "c \<in> set (segments t payload) \<Longrightarrow> looksLikeProse c \<Longrightarrow>
     c \<in> set (spokenContentRef (fst (tag_loop t (ttsBufferRef t @ stripAnsi payload))))"
proof -
  assume a: "c \<in> set (segments t payload)" "looksLikeProse c"
  obtain new where n: "tag_loop t (ttsBufferRef t @ stripAnsi payload) =
           (t\<lparr>spokenContentRef := spokenContentRef t @ new\<rparr>, if gates_open t then new else [])"
    "set new = {c \<in> trim ` set (fst (extract_tags (ttsBufferRef t @ stripAnsi payload))). looksLikeProse c}
        - set (spokenContentRef t)"
    using tag_loop_result by blast
  from a have "c \<in> {c \<in> trim ` set (fst (extract_tags (ttsBufferRef t @ stripAnsi payload))). looksLikeProse c}"
    by (simp add: segments_def)
  with n show ?thesis by auto
qed

lemma one_new_segment:
  assumes "gates_open t"
    and "{c \<in> set (segments t payload). looksLikeProse c \<and> c \<notin> set (spokenContentRef t)} = {seg}"
  shows "snd (onPtyData t payload) = [seg]"
proof -
  obtain new where n: "tag_loop t (ttsBufferRef t @ stripAnsi payload) =
           (t\<lparr>spokenContentRef := spokenContentRef t @ new\<rparr>, if gates_open t then new else [])"
    "distinct new"
    "set new = {c \<in> trim ` set (fst (extract_tags (ttsBufferRef t @ stripAnsi payload))). looksLikeProse c}
        - set (spokenContentRef t)"
    using tag_loop_result by blast
  from n(3) assms(2) have "set new = {seg}" by (auto simp: segments_def)
  with n(2) have "new = [seg]"
    by (cases new) (auto simp: insert_eq_iff dest: subset_singletonD)
  with n(1) assms(1) show ?thesis by (simp add: onPtyData_def Let_def)
qed

text \<open>
  The silent mode. A mounted session is silent, and the replay has entered every segment
  of more than 3 code units that stands complete in one chunk of the replay buffer (and
  no segment that lies across two chunks, see the section on the replay). While the
  session is silent, a stream of chunks leads to no call of \<^verbatim>\<open>speakText\<close>, so the voice
  context stays as it is and \<^verbatim>\<open>voiceSpeak\<close> is not called, and the session stays silent.
  In every mode, every segment of a chunk that the classifier accepts is in the spoken set
  when the loop over the matches is over (the handler then cuts the set to its limit).
  The first input of the user ends the silent mode, later input changes nothing, and no
  chunk brings the silent mode back. After that, with the voice output on, the tab in
  front and the voice context idle, a chunk with exactly one new accepted segment makes
  exactly one call of \<^verbatim>\<open>speakText\<close> and with it exactly one call of \<^verbatim>\<open>voiceSpeak\<close>.
\<close>

lemma silent_until_first_input:
  "silentModeRef (mount t replay)
   \<and> (\<forall>chunk\<in>set replay. \<forall>g\<in>set (fst (extract_tags (stripAnsi chunk))).
         3 < length (trim g) \<longrightarrow> trim g \<in> set (spokenContentRef (mount t replay)))
   \<and> (silentModeRef t \<longrightarrow>
         snd (feed t chunks) = [] \<and> silentModeRef (fst (feed t chunks))
         \<and> snd (foldl onPtyData_voice (t, v) chunks) = v)
   \<and> (\<forall>c\<in>set (segments t payload). looksLikeProse c \<longrightarrow>
         c \<in> set (spokenContentRef (fst (tag_loop t (ttsBufferRef t @ stripAnsi payload)))))
   \<and> spokenContentRef (fst (onPtyData t payload))
       = limit_spoken (spokenContentRef (fst (tag_loop t (ttsBufferRef t @ stripAnsi payload))))
   \<and> \<not> silentModeRef (onData t) \<and> onData (onData t) = onData t
   \<and> \<not> silentModeRef (fst (feed (onData t) chunks))
   \<and> (\<not> silentModeRef t \<and> voiceOutputEnabledRef t \<and> isActiveRef t
       \<and> ctxVoiceOutputEnabledRef v \<and> \<not> isProcessingRef v \<and> speakQueueRef v = []
       \<and> {c \<in> set (segments t payload). looksLikeProse c \<and> c \<notin> set (spokenContentRef t)} = {seg}
       \<longrightarrow> snd (onPtyData t payload) = [seg]
         \<and> snd (onPtyData_voice (t, v) payload)
             = v\<lparr>isProcessingRef := True, isSpeaking := True,
                 voiceSpeakCalls := voiceSpeakCalls v @ [cleanText seg],
                 loops := loops v @ [AwaitSpeak (length (voiceSpeakCalls v))]\<rparr>)"
proof -
  have 1: "silentModeRef (mount t replay)" by (simp add: mount_def)
  have 2: "\<forall>chunk\<in>set replay. \<forall>g\<in>set (fst (extract_tags (stripAnsi chunk))).
         3 < length (trim g) \<longrightarrow> trim g \<in> set (spokenContentRef (mount t replay))"
    by (auto simp: mount_def replay_set)
  have 3: "silentModeRef t \<longrightarrow>
         snd (feed t chunks) = [] \<and> silentModeRef (fst (feed t chunks))
         \<and> snd (foldl onPtyData_voice (t, v) chunks) = v"
    by (simp add: feed_silent feed_refs voice_silent)
  have 4: "\<forall>c\<in>set (segments t payload). looksLikeProse c \<longrightarrow>
         c \<in> set (spokenContentRef (fst (tag_loop t (ttsBufferRef t @ stripAnsi payload))))"
    using qualifying_recorded by blast
  have 5: "\<not> silentModeRef (onData t) \<and> onData (onData t) = onData t
      \<and> \<not> silentModeRef (fst (feed (onData t) chunks))"
    by (simp add: onData_def feed_refs)
  have 6: "snd (onPtyData t payload) = [seg]
         \<and> snd (onPtyData_voice (t, v) payload)
             = v\<lparr>isProcessingRef := True, isSpeaking := True,
                 voiceSpeakCalls := voiceSpeakCalls v @ [cleanText seg],
                 loops := loops v @ [AwaitSpeak (length (voiceSpeakCalls v))]\<rparr>"
    if a: "\<not> silentModeRef t \<and> voiceOutputEnabledRef t \<and> isActiveRef t
       \<and> ctxVoiceOutputEnabledRef v \<and> \<not> isProcessingRef v \<and> speakQueueRef v = []
       \<and> {c \<in> set (segments t payload). looksLikeProse c \<and> c \<notin> set (spokenContentRef t)} = {seg}"
  proof -
    from a have g: "gates_open t" by (simp add: gates_open_def)
    from a have s: "{c \<in> set (segments t payload). looksLikeProse c \<and> c \<notin> set (spokenContentRef t)} = {seg}"
      by simp
    from g s have calls: "snd (onPtyData t payload) = [seg]" by (rule one_new_segment)
    from s have "seg \<in> set (segments t payload)" "looksLikeProse seg" by auto
    then obtain g' where "seg = trim g'" by (auto simp: segments_def)
    with \<open>looksLikeProse seg\<close> have len: "3 \<le> length (cleanText seg)"
      using trim_prose_length by blast
    have "snd (onPtyData_voice (t, v) payload) = speakText seg v"
      using calls by (cases "onPtyData t payload") (simp add: onPtyData_voice_def)
    also have "\<dots> = v\<lparr>isProcessingRef := True, isSpeaking := True,
                 voiceSpeakCalls := voiceSpeakCalls v @ [cleanText seg],
                 loops := loops v @ [AwaitSpeak (length (voiceSpeakCalls v))]\<rparr>"
      using a len by (intro speakText_idle) simp_all
    finally show ?thesis using calls by simp
  qed
  from 1 2 3 4 5 6 show ?thesis by (simp add: onPtyData_spoken)
qed

lemma hello_chunk:
  "stripAnsi (OPEN_TAG @ ascii ''Hello world.'' @ CLOSE_TAG) = OPEN_TAG @ ascii ''Hello world.'' @ CLOSE_TAG"
  "extract_tags (OPEN_TAG @ ascii ''Hello world.'' @ CLOSE_TAG) = ([ascii ''Hello world.''], [])"
  "cleanText (ascii ''Hello world.'') = ascii ''Hello world.''"
proof -
  show "stripAnsi (OPEN_TAG @ ascii ''Hello world.'' @ CLOSE_TAG) = OPEN_TAG @ ascii ''Hello world.'' @ CLOSE_TAG"
    by (rule stripAnsi_plain)
      (simp add: OPEN_TAG_def CLOSE_TAG_def LAQUO_def RAQUO_def ascii_def is_ctrl_def)
  show "extract_tags (OPEN_TAG @ ascii ''Hello world.'' @ CLOSE_TAG) = ([ascii ''Hello world.''], [])"
    using extract_tags_pair [of "[]" "ascii ''Hello world.''" "[]"] hello_facts(2) by simp
  show "cleanText (ascii ''Hello world.'') = ascii ''Hello world.''"
    by (simp add: eval_text)
qed

text \<open>A replay buffer with one segment; two chunks in the silent mode; and the same chunk
  after the first input.\<close>

lemma silent_until_first_input_witness:
  "ascii ''Hello world.''
     \<in> set (spokenContentRef (mount (terminal_refs True True)
                [OPEN_TAG @ ascii ''Hello world.'' @ CLOSE_TAG]))
   \<and> voiceSpeakCalls (snd (foldl onPtyData_voice (mount (terminal_refs True True) [], provider True)
        [OPEN_TAG @ ascii ''Hello world.'' @ CLOSE_TAG, OPEN_TAG @ ascii ''Hello world.'' @ CLOSE_TAG])) = []
   \<and> voiceSpeakCalls (snd (onPtyData_voice (onData (mount (terminal_refs True True) []), provider True)
        (OPEN_TAG @ ascii ''Hello world.'' @ CLOSE_TAG))) = [ascii ''Hello world.'']"
proof -
  let ?chunk = "OPEN_TAG @ ascii ''Hello world.'' @ CLOSE_TAG"
  let ?t0 = "terminal_refs True True"
  have "\<forall>chunk\<in>set [?chunk]. \<forall>g\<in>set (fst (extract_tags (stripAnsi chunk))).
         3 < length (trim g) \<longrightarrow> trim g \<in> set (spokenContentRef (mount ?t0 [?chunk]))"
    by (rule silent_until_first_input [THEN conjunct2, THEN conjunct1])
  then have 1: "ascii ''Hello world.'' \<in> set (spokenContentRef (mount ?t0 [?chunk]))"
    by (simp add: hello_chunk hello_facts(5))
  have "silentModeRef (mount ?t0 []) \<longrightarrow>
         snd (feed (mount ?t0 []) [?chunk, ?chunk]) = [] \<and> silentModeRef (fst (feed (mount ?t0 []) [?chunk, ?chunk]))
         \<and> snd (foldl onPtyData_voice (mount ?t0 [], provider True) [?chunk, ?chunk]) = provider True"
    by (rule silent_until_first_input [THEN conjunct2, THEN conjunct2, THEN conjunct1])
  moreover have "silentModeRef (mount ?t0 [])" by (rule silent_until_first_input [THEN conjunct1])
  ultimately have 2: "voiceSpeakCalls (snd (foldl onPtyData_voice (mount ?t0 [], provider True)
        [?chunk, ?chunk])) = []"
    by (simp add: provider_refs)
  let ?t1 = "onData (mount ?t0 [])"
  have seg: "segments ?t1 ?chunk = [ascii ''Hello world.'']"
    by (simp add: segments_def onData_def mount_def hello_chunk hello_facts(5))
  have pre: "\<not> silentModeRef ?t1 \<and> voiceOutputEnabledRef ?t1 \<and> isActiveRef ?t1
       \<and> ctxVoiceOutputEnabledRef (provider True) \<and> \<not> isProcessingRef (provider True)
       \<and> speakQueueRef (provider True) = []
       \<and> {c \<in> set (segments ?t1 ?chunk). looksLikeProse c \<and> c \<notin> set (spokenContentRef ?t1)}
           = {ascii ''Hello world.''}"
    using hello_prose
    by (auto simp: seg) (simp_all add: onData_def mount_def terminal_refs_def provider_refs)
  have "snd (onPtyData ?t1 ?chunk) = [ascii ''Hello world.'']
         \<and> snd (onPtyData_voice (?t1, provider True) ?chunk)
             = (provider True)\<lparr>isProcessingRef := True, isSpeaking := True,
                 voiceSpeakCalls := voiceSpeakCalls (provider True) @ [cleanText (ascii ''Hello world.'')],
                 loops := loops (provider True) @ [AwaitSpeak (length (voiceSpeakCalls (provider True)))]\<rparr>"
    using pre
    by (rule silent_until_first_input [THEN conjunct2, THEN conjunct2, THEN conjunct2, THEN conjunct2,
          THEN conjunct2, THEN conjunct2, THEN conjunct2, THEN conjunct2, THEN mp])
  then have 3: "voiceSpeakCalls (snd (onPtyData_voice (?t1, provider True) ?chunk))
      = [ascii ''Hello world.'']"
    by (simp add: hello_chunk provider_refs)
  from 1 2 3 show ?thesis by blast
qed

section \<open>Chunk boundaries\<close>












lemma foldl_new_entries:
  "foldl process_match (t, calls) gs =
     (t\<lparr>spokenContentRef := spokenContentRef t @ new_entries (spokenContentRef t) gs\<rparr>,
      if gates_open t then calls @ new_entries (spokenContentRef t) gs else calls)"
proof (induction gs arbitrary: t calls)
  case Nil
  then show ?case by simp
next
  case (Cons g gs)
  show ?case
  proof (cases "looksLikeProse (trim g) \<and> trim g \<notin> set (spokenContentRef t)")
    case True
    let ?t1 = "t\<lparr>spokenContentRef := spokenContentRef t @ [trim g]\<rparr>"
    have g: "gates_open ?t1 = gates_open t" by (simp add: gates_open_def)
    from True have "process_match (t, calls) g = (?t1, if gates_open t then calls @ [trim g] else calls)"
      by (auto simp: process_match_cases)
    then show ?thesis using True g by (simp add: Cons.IH)
  next
    case False
    then have pm: "process_match (t, calls) g = (t, calls)"
      by (auto simp: process_match_cases)
    from False have ne: "new_entries (spokenContentRef t) (g # gs) = new_entries (spokenContentRef t) gs"
      by auto
    show ?thesis by (simp only: foldl.simps pm Cons.IH ne)
  qed
qed


lemma length_new_entries: "length (new_entries sp gs) \<le> length gs"
  by (induction gs arbitrary: sp) (simp_all add: le_SucI)

lemma onPtyData_eq:
  "onPtyData t payload =
     (t\<lparr>ttsBufferRef := carry_over (ttsBufferRef t @ stripAnsi payload),
        spokenContentRef := limit_spoken (spokenContentRef t
          @ new_entries (spokenContentRef t) (fst (extract_tags (ttsBufferRef t @ stripAnsi payload))))\<rparr>,
      if gates_open t
      then new_entries (spokenContentRef t) (fst (extract_tags (ttsBufferRef t @ stripAnsi payload)))
      else [])"
  by (simp add: onPtyData_def tag_loop_def foldl_new_entries Let_def)



lemma keeps_opening_short: "length r \<le> 2000 \<Longrightarrow> keeps_opening r"
  by (simp add: keeps_opening_def split: option.splits)



subsection \<open>Runs of the handler at given chunks\<close>

text \<open>One run of the handler, from the stripped chunk, the buffer, the result of the scan
  and the new entries; and the calls of a stream of one and of two chunks.\<close>

lemma chunk_eval:
  assumes "stripAnsi payload = sc" and "ttsBufferRef t @ sc = buf"
    and "extract_tags buf = (gs, r)" and "new_entries (spokenContentRef t) gs = n"
  shows "snd (onPtyData t payload) = (if gates_open t then n else [])"
    and "ttsBufferRef (fst (onPtyData t payload))
       = (if js_includes OPEN_MARK r
          then (if length r > 2000 then drop (length r - 2000) r else r) else [])"
    and "spokenContentRef (fst (onPtyData t payload)) = limit_spoken (spokenContentRef t @ n)"
    and "gates_open (fst (onPtyData t payload)) = gates_open t"
  using assms by (simp_all add: onPtyData_eq carry_over_def Let_def gates_open_def)





lemmas eval_chars = ascii_def OPEN_TAG_def CLOSE_TAG_def OPEN_MARK_def LAQUO_def RAQUO_def

lemma new_hello: "new_entries [] [ascii ''Hello world.''] = [ascii ''Hello world.'']"
  using hello_prose by (simp add: hello_facts(5))







section \<open>The replay on mount\<close>

text \<open>The replay of the buffer of the chunks \<open>entry_chunk\<close> enters one segment for each
  chunk.\<close>

lemma replay_chunk_entry:
  assumes "\<forall>c\<in>set e. \<not> is_ctrl c" and "LAQUO \<notin> set e" and "trim e = e"
    and "3 < length e" and "e \<notin> set sp"
  shows "replay_chunk sp (OPEN_TAG @ e @ CLOSE_TAG) = sp @ [e]"
proof -
  have "\<forall>c\<in>set (OPEN_TAG @ e @ CLOSE_TAG). \<not> is_ctrl c"
    using assms(1) by (auto simp: OPEN_TAG_def CLOSE_TAG_def LAQUO_def RAQUO_def is_ctrl_def)
  then have s: "stripAnsi (OPEN_TAG @ e @ CLOSE_TAG) = OPEN_TAG @ e @ CLOSE_TAG"
    by (rule stripAnsi_plain)
  have x: "extract_tags (OPEN_TAG @ e @ CLOSE_TAG) = ([e], [])"
    using extract_tags_pair [of "[]" e "[]"] assms(2) by simp
  show ?thesis using assms(3,4,5) by (simp add: replay_chunk_def s x Let_def set_add_def)
qed

lemma entry_facts:
  "\<forall>c\<in>set (entry n). \<not> is_ctrl c"
  "LAQUO \<notin> set (entry n)"
  "trim (entry n) = entry n"
  "length (entry n) = 7 + n"
  "entry 0 = ascii ''Entry x''"
proof -
  show "\<forall>c\<in>set (entry n). \<not> is_ctrl c"
    by (auto simp: entry_def ascii_def is_ctrl_def)
  show "LAQUO \<notin> set (entry n)"
    by (auto simp: entry_def ascii_def LAQUO_def)
  show "length (entry n) = 7 + n" by (simp add: entry_def)
  show "entry 0 = ascii ''Entry x''" by (simp add: entry_def)
  have "last (entry n) = 120"
    by (cases n) (simp_all add: entry_def ascii_def)
  then show "trim (entry n) = entry n"
    by (intro trim_id) (simp_all add: entry_def ascii_def is_space_def)
qed

lemma replay_entries:
  "foldl replay_chunk [] (map entry_chunk [0..<m]) = map entry [0..<m]"
proof (induction m)
  case 0
  then show ?case by simp
next
  case (Suc m)
  let ?sp = "map entry [0..<m]"
  have "length e \<noteq> length (entry m)" if "e \<in> set ?sp" for e
    using that by (auto simp: entry_facts(4))
  then have new: "entry m \<notin> set ?sp" by blast
  have "replay_chunk ?sp (OPEN_TAG @ entry m @ CLOSE_TAG) = ?sp @ [entry m]"
    using entry_facts(1,2,3) _ new by (rule replay_chunk_entry) (simp add: entry_facts(4))
  with Suc show ?case by (simp add: entry_chunk_def)
qed

text \<open>
  Claim C6, at a remount with a replay buffer of 1001 chunks, each with a segment of its
  own. The handler of \<^verbatim>\<open>onPtyData\<close> cuts the spoken set at the end of every run, and
  the loop of the replay does not: at the boundary before the first live chunk the
  spoken set has 1001 entries. The next chunk, whatever it holds, cuts it to 500.
\<close>

theorem replay_exceeds_ceiling:
  "length (spokenContentRef (mount (terminal_refs True True)
      (map entry_chunk [0..<1001]))) = 1001
   \<and> length (spokenContentRef (fst (onPtyData (mount (terminal_refs True True)
      (map entry_chunk [0..<1001]))
      (ascii ''ok'')))) = 500"
proof -
  let ?t = "mount (terminal_refs True True)
      (map entry_chunk [0..<1001])"
  have sp: "spokenContentRef ?t = map entry [0..<1001]"
    by (simp only: mount_def replay_entries) simp
  have b: "ttsBufferRef ?t = []" by (simp add: mount_def)
  have s: "stripAnsi (ascii ''ok'') = ascii ''ok''"
    by (rule stripAnsi_plain) (simp add: ascii_def is_ctrl_def)
  have x: "extract_tags (ascii ''ok'') = ([], ascii ''ok'')"
    by (rule extract_tags_plain) (simp add: ascii_def LAQUO_def)
  have 1: "length (spokenContentRef ?t) = 1001" by (simp only: sp) simp
  have bb: "ttsBufferRef ?t @ ascii ''ok'' = ascii ''ok''" by (simp add: b)
  have n: "new_entries (spokenContentRef ?t) [] = []" by simp
  have "spokenContentRef (fst (onPtyData ?t (ascii ''ok''))) = limit_spoken (spokenContentRef ?t)"
    using chunk_eval(3) [OF s bb x n] by simp
  then have 2: "length (spokenContentRef (fst (onPtyData ?t (ascii ''ok'')))) = 500"
    using 1 by (simp add: limit_spoken_def)
  from 1 2 show ?thesis by (rule conjI)
qed

lemma feed_two_state: "fst (feed t [p, q]) = fst (onPtyData (fst (onPtyData t p)) q)"
  by (simp split: prod.splits)

lemma mount_refs:
  "ttsBufferRef (mount t replay) = []" "silentModeRef (mount t replay)"
  "voiceOutputEnabledRef (mount t replay) = voiceOutputEnabledRef t"
  "isActiveRef (mount t replay) = isActiveRef t"
  "ttsBufferRef (onData t) = ttsBufferRef t" "spokenContentRef (onData t) = spokenContentRef t"
  "gates_open (onData t) = (voiceOutputEnabledRef t \<and> isActiveRef t)"
  by (simp_all add: mount_def onData_def gates_open_def)

text \<open>
  Claim C3, at a remount with a segment that lies across two chunks of the replay buffer.
  The handler of \<^verbatim>\<open>onPtyData\<close> puts such a segment together in its buffer and, in the
  silent mode, enters it in the spoken set without speaking it. The loop of the replay
  scans every chunk on its own and enters nothing. When the segment comes again after
  the first input of the user, it is spoken.
\<close>

theorem replay_misses_split_segment:
  "spokenContentRef (mount (terminal_refs True True)
      [OPEN_TAG @ ascii ''Hello wo'', ascii ''rld.'' @ CLOSE_TAG]) = []
   \<and> spokenContentRef (fst (feed (mount (terminal_refs True True) [])
      [OPEN_TAG @ ascii ''Hello wo'', ascii ''rld.'' @ CLOSE_TAG])) = [ascii ''Hello world.'']
   \<and> voiceSpeakCalls (snd (onPtyData_voice
        (onData (mount (terminal_refs True True)
           [OPEN_TAG @ ascii ''Hello wo'', ascii ''rld.'' @ CLOSE_TAG]), provider True)
        (OPEN_TAG @ ascii ''Hello world.'' @ CLOSE_TAG))) = [ascii ''Hello world.'']"
proof -
  let ?c1 = "OPEN_TAG @ ascii ''Hello wo''"
  let ?c2 = "ascii ''rld.'' @ CLOSE_TAG"
  let ?hw = "OPEN_TAG @ ascii ''Hello world.'' @ CLOSE_TAG"
  let ?m = "mount (terminal_refs True True) [?c1, ?c2]"
  let ?t0 = "mount (terminal_refs True True) []"
  have s1: "stripAnsi ?c1 = [] @ ?c1" using hello_facts(3) by (simp add: stripAnsi_plain)
  have s2: "stripAnsi ?c2 = ?c2" using hello_facts(4) by (rule stripAnsi_plain)
  have e1: "extract_tags ([] @ ?c1) = ([], [] @ ?c1)"
    using hello_facts(1) by (intro extract_tags_open) simp_all
  have e2: "extract_tags ?c2 = ([], ?c2)"
    by (subst extract_tags.simps) (simp add: tag_exec_def eval_chars)
  have r1: "replay_chunk [] ?c1 = []" using s1 e1 by (simp add: replay_chunk_def)
  have r2: "replay_chunk [] ?c2 = []" by (simp only: replay_chunk_def s2 e2 fst_conv foldl.simps)
  have 1: "spokenContentRef ?m = []"
    by (simp only: mount_def foldl.simps r1 r2) simp
  have b0: "ttsBufferRef ?t0 @ ([] @ ?c1) = [] @ ?c1" by (simp add: mount_refs)
  have n0: "new_entries (spokenContentRef ?t0) [] = []" by simp
  note first = chunk_eval [OF s1 b0 e1 n0]
  let ?t1 = "fst (onPtyData ?t0 ?c1)"
  have i1: "js_includes OPEN_MARK ([] @ ?c1)" by (rule includes_open_mark) simp
  have "length ([] @ ?c1) \<le> 2000" by (simp add: OPEN_TAG_def)
  with first(2) i1 have buf1: "ttsBufferRef ?t1 = ?c1" by simp
  have sp1: "spokenContentRef ?t1 = []"
    using first(3) by (simp add: mount_def limit_spoken_def)
  have b1: "ttsBufferRef ?t1 @ ?c2 = [] @ OPEN_TAG @ ascii ''Hello world.'' @ CLOSE_TAG @ []"
    using buf1 hello_facts(6) by simp
  have x1: "extract_tags ([] @ OPEN_TAG @ ascii ''Hello world.'' @ CLOSE_TAG @ [])
      = ([ascii ''Hello world.''], [])"
    using hello_facts(2) by (intro extract_tags_pair) simp_all
  have n1: "new_entries (spokenContentRef ?t1) [ascii ''Hello world.''] = [ascii ''Hello world.'']"
    by (simp only: sp1 new_hello)
  have "spokenContentRef (fst (onPtyData ?t1 ?c2))
      = limit_spoken (spokenContentRef ?t1 @ [ascii ''Hello world.''])"
    by (rule chunk_eval(3) [OF s2 b1 x1 n1])
  then have 2: "spokenContentRef (fst (feed ?t0 [?c1, ?c2])) = [ascii ''Hello world.'']"
    by (simp only: feed_two_state sp1) (simp add: limit_spoken_def)
  let ?t = "onData ?m"
  have bt: "ttsBufferRef ?t @ ?hw = ?hw" by (simp add: mount_refs)
  have nt: "new_entries (spokenContentRef ?t) [ascii ''Hello world.''] = [ascii ''Hello world.'']"
    by (simp only: mount_refs 1 new_hello)
  have g: "gates_open ?t" by (simp add: mount_refs terminal_refs_def)
  have calls: "snd (onPtyData ?t ?hw) = [ascii ''Hello world.'']"
    using chunk_eval(1) [OF hello_chunk(1) bt hello_chunk(2) nt] g by simp
  have "snd (onPtyData_voice (?t, provider True) ?hw) = speakText (ascii ''Hello world.'') (provider True)"
    using calls by (cases "onPtyData ?t ?hw") (simp add: onPtyData_voice_def)
  also have "\<dots> = (provider True)\<lparr>isProcessingRef := True, isSpeaking := True,
        voiceSpeakCalls := voiceSpeakCalls (provider True) @ [cleanText (ascii ''Hello world.'')],
        loops := loops (provider True) @ [AwaitSpeak (length (voiceSpeakCalls (provider True)))]\<rparr>"
    by (rule speakText_idle) (simp_all add: provider_refs hello_chunk(3))
  finally have 3: "voiceSpeakCalls (snd (onPtyData_voice (?t, provider True) ?hw))
      = [ascii ''Hello world.'']"
    by (simp add: provider_refs hello_chunk(3))
  from 1 2 3 show ?thesis by (intro conjI)
qed

section \<open>Streams that depend on their chunk boundaries, and one that does not\<close>











end
